theory Spec2Isabelle
  imports Main "HOL-Library.Word" "HOL-Library.Sublist"
begin

section \<open>Bytes, errors and the raw sequential sink\<close>

type_synonym byte = "8 word"

text \<open>
  Go errors are values. Each constructor names the place of the source that produces it;
  the fatal ones (\<open>log.Fatalf\<close>, \<open>log.Fatalln\<close>) end the process.
\<close>

datatype error =
    SinkError          \<comment> \<open>the underlying \<open>io.Writer\<close> returned a non-nil error\<close>
  | ReadError          \<comment> \<open>\<open>file.Read\<close> returned an error other than \<open>io.EOF\<close>\<close>
  | ZipError           \<comment> \<open>\<open>zip.Writer.CreateHeader\<close> or the entry writer failed\<close>
  | WalkError          \<comment> \<open>\<open>filepath.Walk\<close> handed an error to the callback\<close>
  | StatError          \<comment> \<open>\<open>os.Stat\<close> failed\<close>
  | HeaderError        \<comment> \<open>\<open>zip.FileInfoHeader\<close> failed\<close>
  | RelError           \<comment> \<open>\<open>filepath.Rel\<close> failed\<close>
  | AbsError           \<comment> \<open>\<open>filepath.Abs\<close> failed\<close>
  | OpenError          \<comment> \<open>\<open>os.Open\<close> failed\<close>

text \<open>
  The sink behind the buffer is an \<open>io.Writer\<close> (the destination file, or the digest stage
  in front of it). Its code is outside the repository, so it is modelled by what the
  repository's code observes of it: every call \<open>Write(p)\<close> answers \<open>(n, err)\<close>. The answers of
  the coming calls are a script; a sink whose script is used up accepts everything.
\<close>

datatype outcome =
    Ok           \<comment> \<open>\<open>(len(p), nil)\<close>\<close>
  | Short nat    \<comment> \<open>\<open>(min k len(p), nil)\<close>\<close>
  | Err nat      \<comment> \<open>\<open>(min k len(p), err)\<close> with \<open>err != nil\<close>\<close>

record sink =
  calls :: "byte list list"        \<comment> \<open>the slices handed to \<open>Write\<close>, in call order\<close>
  replies :: "(nat \<times> bool) list"   \<comment> \<open>the answer \<open>(n, err != nil)\<close> to each call\<close>
  script :: "outcome list"

definition new_sink :: "outcome list \<Rightarrow> sink" where
  "new_sink sc = \<lparr>calls = [], replies = [], script = sc\<rparr>"

definition answer :: "outcome \<Rightarrow> byte list \<Rightarrow> nat \<times> bool" where
  "answer oc p = (case oc of
       Ok \<Rightarrow> (length p, False)
     | Short k \<Rightarrow> (min k (length p), False)
     | Err k \<Rightarrow> (min k (length p), True))"

definition sink_write :: "sink \<Rightarrow> byte list \<Rightarrow> (nat \<times> bool) \<times> sink" where
  "sink_write s p =
     (let oc = (case script s of [] \<Rightarrow> Ok | x # _ \<Rightarrow> x);
          r = answer oc p
      in (r, \<lparr>calls = calls s @ [p], replies = replies s @ [r], script = tl (script s)\<rparr>))"

section \<open>BufferedWriter: the coalescing buffer\<close>

record BufferedWriter =
  writer :: sink
  buffer :: "byte list"
  offset :: nat

definition NewBufferedWriter :: "sink \<Rightarrow> nat \<Rightarrow> BufferedWriter" where
  "NewBufferedWriter w bufSize = \<lparr>writer = w, buffer = replicate bufSize 0, offset = 0\<rparr>"

text \<open>
  \<open>Flush\<close> returns at once on an empty buffer; otherwise it hands \<open>buffer[:offset]\<close> to the
  sink in one call, resets \<open>offset\<close> whatever the sink answers, and returns the sink's error
  (the byte count is dropped, as in the source).
\<close>

definition Flush :: "BufferedWriter \<Rightarrow> error option \<times> BufferedWriter" where
  "Flush bw =
     (if offset bw = 0 then (None, bw)
      else (case sink_write (writer bw) (take (offset bw) (buffer bw)) of
              ((n, failed), w') \<Rightarrow>
                ((if failed then Some SinkError else None), bw\<lparr>writer := w', offset := 0\<rparr>)))"

text \<open>
  The loop of \<open>Write\<close>. \<open>copy(bw.buffer[bw.offset:], p[srcOffset:srcOffset+copySize])\<close>
  overwrites \<open>copySize\<close> cells of the buffer from \<open>offset\<close> on. With a buffer of size 0 the
  loop makes no progress and never returns, so the loop is a partial function: \<open>None\<close> is
  "does not return". \<open>offset\<close> never exceeds \<open>len(buffer)\<close> (lemma \<open>Write_post\<close> below), so the
  subtraction on \<open>nat\<close> is the one of the source.
\<close>

definition copy_in :: "BufferedWriter \<Rightarrow> byte list \<Rightarrow> nat \<Rightarrow> nat \<Rightarrow> BufferedWriter" where
  "copy_in bw p srcOffset copySize =
     bw\<lparr>buffer := take (offset bw) (buffer bw) @ take copySize (drop srcOffset p)
                    @ drop (offset bw + copySize) (buffer bw),
        offset := offset bw + copySize\<rparr>"

partial_function (option) write_loop ::
  "BufferedWriter \<Rightarrow> byte list \<Rightarrow> nat \<Rightarrow> nat \<Rightarrow> ((nat \<times> error option) \<times> BufferedWriter) option"
where
  "write_loop bw p remaining srcOffset =
     (if remaining > 0 then
        (if length (buffer bw) - offset bw = 0 then
           (case Flush bw of
              (Some e, bw1) \<Rightarrow> Some ((length p - remaining, Some e), bw1)
            | (None, bw1) \<Rightarrow>
                (let available = length (buffer bw1);
                     copySize = (if remaining > available then available else remaining)
                 in write_loop (copy_in bw1 p srcOffset copySize) p
                      (remaining - copySize) (srcOffset + copySize)))
         else
           (let available = length (buffer bw) - offset bw;
                copySize = (if remaining > available then available else remaining)
            in write_loop (copy_in bw p srcOffset copySize) p
                 (remaining - copySize) (srcOffset + copySize)))
      else Some ((length p, None), bw))"

declare write_loop.simps [code]

definition Write :: "BufferedWriter \<Rightarrow> byte list \<Rightarrow> ((nat \<times> error option) \<times> BufferedWriter) option" where
  "Write bw p = write_loop bw p (length p) 0"

text \<open>\<open>main\<close> creates the buffer with \<open>10*1024*1024\<close> bytes in both variants.\<close>

definition bufferedFile :: "sink \<Rightarrow> BufferedWriter" where
  "bufferedFile file = NewBufferedWriter file (10 * 1024 * 1024)"

text \<open>
  A sequence of \<open>Write\<close> calls, one after the other on the same buffer. A caller that gets
  an error stops writing (the archive writer in front of the buffer keeps the first error).
\<close>

fun writes :: "BufferedWriter \<Rightarrow> byte list list \<Rightarrow> (error option \<times> BufferedWriter) option" where
  "writes bw [] = Some (None, bw)"
| "writes bw (p # ps) =
     (case Write bw p of
        None \<Rightarrow> None
      | Some ((n, None), bw') \<Rightarrow> writes bw' ps
      | Some ((n, Some e), bw') \<Rightarrow> Some (Some e, bw'))"

text \<open>A whole session: a fresh buffer of capacity \<open>cap\<close>, the writes, then the final \<open>Flush\<close>.\<close>

definition session :: "nat \<Rightarrow> outcome list \<Rightarrow> byte list list \<Rightarrow> (error option \<times> BufferedWriter) option" where
  "session cap sc ps =
     (case writes (NewBufferedWriter (new_sink sc) cap) ps of
        None \<Rightarrow> None
      | Some (Some e, bw) \<Rightarrow> Some (Some e, bw)
      | Some (None, bw) \<Rightarrow> Some (Flush bw))"

text \<open>The bytes held in the buffer and not yet handed to the sink.\<close>

definition pending :: "BufferedWriter \<Rightarrow> byte list" where
  "pending bw = take (offset bw) (buffer bw)"

text \<open>A sink script without a failing answer.\<close>

definition no_failure :: "outcome list \<Rightarrow> bool" where
  "no_failure sc = (\<forall>oc \<in> set sc. case oc of Err k \<Rightarrow> False | _ \<Rightarrow> True)"

text \<open>
  What one \<open>Write\<close> call (from \<open>srcOffset\<close> on) and what a sequence of calls guarantee: the
  buffer keeps its size, every slice handed to the sink meanwhile has the size of the buffer, an
  error can only come from a failing sink, and without error the bytes handed to the sink
  followed by the pending bytes are the old pending bytes followed by the input.
\<close>

definition wl_post :: "BufferedWriter \<Rightarrow> byte list \<Rightarrow> nat \<Rightarrow> (nat \<times> error option) \<times> BufferedWriter \<Rightarrow> bool" where
  "wl_post bw p srcOffset y =
     (length (buffer (snd y)) = length (buffer bw) \<and> offset (snd y) \<le> length (buffer bw) \<and>
      set (script (writer (snd y))) \<subseteq> set (script (writer bw)) \<and>
      (snd (fst y) \<noteq> None \<longrightarrow> \<not> no_failure (script (writer bw))) \<and>
      (\<exists>new. calls (writer (snd y)) = calls (writer bw) @ new \<and>
             (\<forall>c\<in>set new. length c = length (buffer bw)) \<and>
             (snd (fst y) = None \<longrightarrow> concat new @ pending (snd y) = pending bw @ drop srcOffset p)))"

definition ws_post :: "BufferedWriter \<Rightarrow> byte list list \<Rightarrow> error option \<times> BufferedWriter \<Rightarrow> bool" where
  "ws_post bw ps r =
     (length (buffer (snd r)) = length (buffer bw) \<and> offset (snd r) \<le> length (buffer bw) \<and>
      set (script (writer (snd r))) \<subseteq> set (script (writer bw)) \<and>
      (fst r \<noteq> None \<longrightarrow> \<not> no_failure (script (writer bw))) \<and>
      (\<exists>new. calls (writer (snd r)) = calls (writer bw) @ new \<and>
             (\<forall>c\<in>set new. length c = length (buffer bw)) \<and>
             (fst r = None \<longrightarrow> concat new @ pending (snd r) = pending bw @ concat ps)))"


section \<open>AsyncSHA256Writer: the digest stage\<close>

text \<open>
  \<open>crypto/sha256\<close> and \<open>encoding/hex\<close> belong to Go's standard library, not to the repository.
  The \<open>hash.Hash\<close> held by the stage is modelled by its contract: its state is the sequence of
  bytes written to it so far, and \<open>Sum(nil)\<close> is the digest \<open>H\<close> of that sequence. The digest
  function \<open>H\<close> (SHA-256 in the program) is a parameter of the model. \<open>hex.EncodeToString\<close>
  writes two lower-case hexadecimal digits per byte, the high nibble first.
\<close>

definition hexdigit :: "nat \<Rightarrow> char" where
  "hexdigit k = ''0123456789abcdef'' ! k"

definition EncodeToString :: "byte list \<Rightarrow> string" where
  "EncodeToString bs = concat (map (\<lambda>b. [hexdigit (unat b div 16), hexdigit (unat b mod 16)]) bs)"

record AsyncSHA256Writer =
  sha_writer :: sink                     \<comment> \<open>field \<open>writer\<close>: the destination file\<close>
  hasher :: "byte list"                  \<comment> \<open>the bytes written to the \<open>hash.Hash\<close> so far\<close>
  dataCh :: "byte list option list"      \<comment> \<open>buffered channel of capacity 10; \<open>None\<close> is \<open>nil\<close>\<close>
  doneCh :: bool                         \<comment> \<open>\<open>True\<close> once \<open>close(asw.doneCh)\<close> has run\<close>
  resultCh :: "string list"              \<comment> \<open>buffered channel of capacity 1\<close>
  wg :: nat                              \<comment> \<open>the \<open>WaitGroup\<close> counter: 1 while \<open>hashWorker\<close> runs\<close>
  closed :: bool

definition NewAsyncSHA256Writer :: "sink \<Rightarrow> AsyncSHA256Writer" where
  "NewAsyncSHA256Writer w =
     \<lparr>sha_writer = w, hasher = [], dataCh = [], doneCh = False, resultCh = [], wg = 1,
      closed = False\<rparr>"

text \<open>
  The stage runs two goroutines: the caller (\<open>main\<close>, through the buffer: a sequence of \<open>Write\<close>
  calls, then one \<open>Sum\<close>) and \<open>hashWorker\<close>. They meet only at the channels, so an execution is
  an interleaving of the atomic actions below. The caller's place in its code is \<open>at\<close>; \<open>todo\<close>
  are the \<open>Write\<close> calls it still has to make. The mutex \<open>mu\<close> is taken by the caller only and
  never contended. Time is not modelled: the timer of \<open>Sum\<close> may fire whenever the caller
  waits in the \<open>select\<close>.
\<close>

datatype pc =
    Calling                 \<comment> \<open>between two calls\<close>
  | Sending "byte list"     \<comment> \<open>in \<open>Write\<close>, at \<open>asw.dataCh <- dataCopy\<close>\<close>
  | SendingNil              \<comment> \<open>in \<open>Close\<close>, at \<open>asw.dataCh <- nil\<close>\<close>
  | Selecting               \<comment> \<open>in \<open>Sum\<close>, at the \<open>select\<close>\<close>
  | Waiting                 \<comment> \<open>in \<open>Sum\<close>, at \<open>asw.wg.Wait()\<close>\<close>
  | Returned string         \<comment> \<open>\<open>Sum\<close> has returned this string\<close>

datatype action =
    CallWrite     \<comment> \<open>\<open>Write\<close>: the write to the sink, up to the channel send\<close>
  | SendData      \<comment> \<open>\<open>Write\<close>: \<open>asw.dataCh <- dataCopy\<close> goes through, \<open>Write\<close> returns\<close>
  | CallSum       \<comment> \<open>\<open>Sum\<close> calls \<open>Close\<close>: sets \<open>closed\<close>\<close>
  | SendNil       \<comment> \<open>\<open>Close\<close>: \<open>asw.dataCh <- nil\<close> goes through\<close>
  | RecvResult    \<comment> \<open>\<open>Sum\<close>: \<open>case result := <-asw.resultCh\<close>\<close>
  | Timeout       \<comment> \<open>\<open>Sum\<close>: \<open>case <-time.After(30 * time.Second)\<close>, then \<open>close(asw.doneCh)\<close>\<close>
  | WaitReturn    \<comment> \<open>\<open>Sum\<close>: \<open>asw.wg.Wait()\<close> returns, \<open>Sum\<close> returns the empty string\<close>
  | WorkerRecv    \<comment> \<open>\<open>hashWorker\<close>: \<open>case data := <-asw.dataCh\<close> and its body\<close>
  | WorkerDone    \<comment> \<open>\<open>hashWorker\<close>: \<open>case <-asw.doneCh\<close>\<close>

record digest_run =
  asw :: AsyncSHA256Writer
  todo :: "byte list list"
  at :: pc

definition start :: "outcome list \<Rightarrow> byte list list \<Rightarrow> digest_run" where
  "start sc ps = \<lparr>asw = NewAsyncSHA256Writer (new_sink sc), todo = ps, at = Calling\<rparr>"

text \<open>
  \<open>fire H a s\<close> is the state after action \<open>a\<close>, or \<open>None\<close> when \<open>a\<close> cannot happen in \<open>s\<close> (the
  goroutine is elsewhere in its code, or blocked on the channel). \<open>Write\<close> returns early when
  the sink fails; it hands \<open>p[:n]\<close> to the worker only when the stage is not closed and
  \<open>n > 0\<close>. The worker's send on \<open>resultCh\<close> never blocks: it happens at most once and the
  channel has room for one result.
\<close>

fun fire :: "(byte list \<Rightarrow> byte list) \<Rightarrow> action \<Rightarrow> digest_run \<Rightarrow> digest_run option" where
  "fire H CallWrite s =
     (case (at s, todo s) of
        (Calling, p # ps) \<Rightarrow>
          (case sink_write (sha_writer (asw s)) p of
             ((n, failed), w') \<Rightarrow>
               if failed then Some (s\<lparr>asw := (asw s)\<lparr>sha_writer := w'\<rparr>, todo := ps\<rparr>)
               else if \<not> closed (asw s) \<and> n > 0
               then Some (s\<lparr>asw := (asw s)\<lparr>sha_writer := w'\<rparr>, todo := ps, at := Sending (take n p)\<rparr>)
               else Some (s\<lparr>asw := (asw s)\<lparr>sha_writer := w'\<rparr>, todo := ps\<rparr>))
      | _ \<Rightarrow> None)"
| "fire H SendData s =
     (case at s of
        Sending d \<Rightarrow>
          if length (dataCh (asw s)) < 10
          then Some (s\<lparr>asw := (asw s)\<lparr>dataCh := dataCh (asw s) @ [Some d]\<rparr>, at := Calling\<rparr>)
          else None
      | _ \<Rightarrow> None)"
| "fire H CallSum s =
     (case (at s, todo s) of
        (Calling, []) \<Rightarrow>
          if \<not> closed (asw s) then Some (s\<lparr>asw := (asw s)\<lparr>closed := True\<rparr>, at := SendingNil\<rparr>)
          else Some (s\<lparr>at := Selecting\<rparr>)
      | _ \<Rightarrow> None)"
| "fire H SendNil s =
     (case at s of
        SendingNil \<Rightarrow>
          if length (dataCh (asw s)) < 10
          then Some (s\<lparr>asw := (asw s)\<lparr>dataCh := dataCh (asw s) @ [None]\<rparr>, at := Selecting\<rparr>)
          else None
      | _ \<Rightarrow> None)"
| "fire H RecvResult s =
     (case (at s, resultCh (asw s)) of
        (Selecting, r # rs) \<Rightarrow> Some (s\<lparr>asw := (asw s)\<lparr>resultCh := rs\<rparr>, at := Returned r\<rparr>)
      | _ \<Rightarrow> None)"
| "fire H Timeout s =
     (case at s of
        Selecting \<Rightarrow> Some (s\<lparr>asw := (asw s)\<lparr>doneCh := True\<rparr>, at := Waiting\<rparr>)
      | _ \<Rightarrow> None)"
| "fire H WaitReturn s =
     (case at s of
        Waiting \<Rightarrow> if wg (asw s) = 0 then Some (s\<lparr>at := Returned []\<rparr>) else None
      | _ \<Rightarrow> None)"
| "fire H WorkerRecv s =
     (if wg (asw s) = 0 then None
      else (case dataCh (asw s) of
              [] \<Rightarrow> None
            | None # q \<Rightarrow>
                Some (s\<lparr>asw := (asw s)\<lparr>dataCh := q,
                        resultCh := resultCh (asw s) @ [EncodeToString (H (hasher (asw s)))],
                        wg := wg (asw s) - 1\<rparr>\<rparr>)
            | Some d # q \<Rightarrow>
                Some (s\<lparr>asw := (asw s)\<lparr>dataCh := q, hasher := hasher (asw s) @ d\<rparr>\<rparr>)))"
| "fire H WorkerDone s =
     (if wg (asw s) = 0 \<or> \<not> doneCh (asw s) then None
      else Some (s\<lparr>asw := (asw s)\<lparr>wg := wg (asw s) - 1\<rparr>\<rparr>))"

text \<open>An execution follows a schedule, the list of the actions in the order they happen.\<close>

fun exec :: "(byte list \<Rightarrow> byte list) \<Rightarrow> action list \<Rightarrow> digest_run \<Rightarrow> digest_run option" where
  "exec H [] s = Some s"
| "exec H (a # as) s = (case fire H a s of None \<Rightarrow> None | Some s' \<Rightarrow> exec H as s')"

text \<open>
  The bytes of the \<open>Write\<close> calls that the sink answered without error: \<open>p[:n]\<close> for every call
  \<open>Write(p)\<close> answered \<open>(n, nil)\<close>, in call order.
\<close>

definition acked :: "sink \<Rightarrow> byte list" where
  "acked w = concat (map (\<lambda>(p, (n, failed)). if failed then [] else take n p) (zip (calls w) (replies w)))"

text \<open>
  The bytes the sink took: \<open>p[:n]\<close> for every call \<open>Write(p)\<close> answered \<open>(n, err)\<close>, with or
  without an error, in call order.
\<close>

definition written :: "sink \<Rightarrow> byte list" where
  "written w = concat (map (\<lambda>(p, (n, failed)). take n p) (zip (calls w) (replies w)))"

text \<open>The bytes on their way to the hash: in the hasher, in the channel, or being sent.\<close>

definition in_flight :: "digest_run \<Rightarrow> byte list" where
  "in_flight s =
     hasher (asw s) @ concat (map (\<lambda>x. case x of None \<Rightarrow> [] | Some d \<Rightarrow> d) (dataCh (asw s)))
       @ (case at s of Sending d \<Rightarrow> d | _ \<Rightarrow> [])"

definition early :: "pc \<Rightarrow> bool" where
  "early c = (case c of Calling \<Rightarrow> True | Sending d \<Rightarrow> True | SendingNil \<Rightarrow> True | _ \<Rightarrow> False)"

definition writing :: "pc \<Rightarrow> bool" where
  "writing c = (case c of Calling \<Rightarrow> True | Sending d \<Rightarrow> True | _ \<Rightarrow> False)"

text \<open>
  The invariant of every execution: what is in flight is what the sink acknowledged; \<open>nil\<close>
  is queued last and only once the caller is past \<open>Close\<close>; the stage is not closed while the
  caller still writes; a result in \<open>resultCh\<close>, or one returned by \<open>Sum\<close>, is the digest of
  the acknowledged bytes.
\<close>

definition digest_inv :: "(byte list \<Rightarrow> byte list) \<Rightarrow> digest_run \<Rightarrow> bool" where
  "digest_inv H s =
     (in_flight s = acked (sha_writer (asw s)) \<and>
      None \<notin> set (butlast (dataCh (asw s))) \<and>
      length (calls (sha_writer (asw s))) = length (replies (sha_writer (asw s))) \<and>
      (early (at s) \<longrightarrow> None \<notin> set (dataCh (asw s)) \<and> resultCh (asw s) = []) \<and>
      (writing (at s) \<longrightarrow> \<not> closed (asw s)) \<and>
      (\<forall>r \<in> set (resultCh (asw s)). r = EncodeToString (H (acked (sha_writer (asw s))))) \<and>
      (\<forall>r. at s = Returned r \<longrightarrow> r = [] \<or> r = EncodeToString (H (acked (sha_writer (asw s))))))"

text \<open>
  Two more invariants. The caller makes its \<open>Write\<close> calls in order and reaches \<open>Sum\<close> only
  after the last one; a sink that accepts everything acknowledges every byte. An empty
  string is returned by \<open>Sum\<close> only on the timeout branch, after \<open>doneCh\<close> was closed and the
  worker has ended.
\<close>

definition all_ok :: "outcome list \<Rightarrow> bool" where
  "all_ok sc = (\<forall>oc \<in> set sc. oc = Ok)"

definition caller_inv :: "outcome list \<Rightarrow> byte list list \<Rightarrow> digest_run \<Rightarrow> bool" where
  "caller_inv sc ps s =
     (calls (sha_writer (asw s)) @ todo s = ps \<and>
      (\<not> writing (at s) \<longrightarrow> todo s = []) \<and>
      (all_ok sc \<longrightarrow> all_ok (script (sha_writer (asw s))) \<and>
         replies (sha_writer (asw s)) = map (\<lambda>p. (length p, False)) (calls (sha_writer (asw s)))))"

definition timeout_inv :: "digest_run \<Rightarrow> bool" where
  "timeout_inv s =
     ((at s = Waiting \<longrightarrow> doneCh (asw s)) \<and>
      (at s = Returned [] \<longrightarrow> doneCh (asw s) \<and> wg (asw s) = 0) \<and>
      (\<forall>r \<in> set (resultCh (asw s)). r \<noteq> []) \<and>
      wg (asw s) \<le> 1)"

text \<open>
  A bound on the actions still possible once \<open>Sum\<close> has taken the timeout branch: the worker
  can drain the channel and end, then \<open>Sum\<close> returns.
\<close>

definition steps_left :: "digest_run \<Rightarrow> nat" where
  "steps_left s = length (dataCh (asw s)) + wg (asw s) + (if at s = Waiting then 1 else 0)"

text \<open>
  The end of \<open>main\<close> in the variant with the digest stage, after \<open>Sum\<close> has returned
  \<open>sha256Sum\<close>: what is logged and which sidecar file is written. \<open>wfail\<close> says whether
  \<open>os.WriteFile\<close> fails; \<open>filepath.Base\<close> is a parameter. No branch ends the process.
\<close>

datatype report =
    LogChecksum string          \<comment> \<open>the checksum line\<close>
  | LogSidecarSaved string      \<comment> \<open>the checksum was saved to this file\<close>
  | WarnSidecarWrite string     \<comment> \<open>warning: the sidecar file could not be written\<close>
  | WarnDigestUnavailable       \<comment> \<open>warning: the SHA256 computation timed out or failed\<close>

definition report_digest ::
  "(string \<Rightarrow> string) \<Rightarrow> bool \<Rightarrow> string \<Rightarrow> string \<Rightarrow> bool \<Rightarrow> report list \<times> (string \<times> string) option"
where
  "report_digest base_of noSha256 sha256Sum destFile wfail =
     (if \<not> noSha256 then
        (if sha256Sum \<noteq> [] then
           (let sha256File = destFile @ ''.sha256'' in
            if wfail then ([LogChecksum sha256Sum, WarnSidecarWrite sha256File], None)
            else ([LogChecksum sha256Sum, LogSidecarSaved sha256File],
                  Some (sha256File, sha256Sum @ ''  '' @ base_of destFile @ [CHR 0x0A])))
         else ([WarnDigestUnavailable], None))
      else ([], None))"

section \<open>Paths, the traversal and the archive writer\<close>

text \<open>
  Package \<open>path/filepath\<close> is Go's standard library and depends on the operating system. Its
  functions are parameters of the model, collected in a record; \<open>strings.TrimPrefix\<close>,
  \<open>strings.TrimSuffix\<close>, \<open>strings.HasPrefix\<close> (\<open>prefix\<close>) and \<open>strings.HasSuffix\<close> (\<open>suffix\<close>)
  are written out.
\<close>

record pathlib =
  PathSeparator :: char
  Abs :: "string \<Rightarrow> error + string"
  Rel :: "string \<Rightarrow> string \<Rightarrow> error + string"
  Dir :: "string \<Rightarrow> string"
  Base :: "string \<Rightarrow> string"
  VolumeName :: "string \<Rightarrow> string"
  Join :: "string \<Rightarrow> string \<Rightarrow> string"
  ToSlash :: "string \<Rightarrow> string"

definition TrimPrefix :: "string \<Rightarrow> string \<Rightarrow> string" where
  "TrimPrefix s pre = (if prefix pre s then drop (length pre) s else s)"

definition TrimSuffix :: "string \<Rightarrow> string \<Rightarrow> string" where
  "TrimSuffix s suf = (if suffix suf s then take (length s - length suf) s else s)"

text \<open>
  What \<open>filepath.Walk\<close> hands to the callback, one record per call: the path, whether
  \<open>info.IsDir()\<close>, whether the \<open>err\<close> argument is non-nil, and what the operating system will
  answer when the callback works on the entry: whether \<open>zip.FileInfoHeader\<close> fails, whether
  \<open>os.Open\<close> fails, and the results \<open>(n, err)\<close> of the successive \<open>file.Read\<close> calls, as the
  bytes read and the error. A file whose script is used up answers \<open>(0, io.EOF)\<close>.
\<close>

datatype rstatus =
    More       \<comment> \<open>\<open>err == nil\<close>\<close>
  | AtEOF      \<comment> \<open>\<open>err == io.EOF\<close>\<close>
  | Broken     \<comment> \<open>any other error\<close>

record visit =
  path :: string
  isDir :: bool
  walk_err :: bool
  header_err :: bool
  open_err :: bool
  reads :: "(byte list \<times> rstatus) list"

record source =
  src_path :: string           \<comment> \<open>the argument \<open>basePath\<close> of \<open>addFiles\<close>, a line of \<open>src.txt\<close>\<close>
  stat :: "bool option"        \<comment> \<open>\<open>os.Stat(basePath)\<close>: \<open>None\<close> is an error, \<open>Some d\<close> is \<open>info.IsDir()\<close>\<close>
  visits :: "visit list"       \<comment> \<open>the calls \<open>filepath.Walk\<close> makes on it, in order\<close>

text \<open>
  \<open>zip.Writer\<close> is Go's standard library as well. The model keeps the calls made on it, each
  with the place of the source that made it and whether it failed; the coming failures are a
  script. The headers the archive gets are the names of the \<open>CreateHeader\<close> calls that did not
  fail.
\<close>

datatype site =
    Volume     \<comment> \<open>\<open>w.CreateHeader(volHeader)\<close>, the root directory of a volume\<close>
  | Entry      \<comment> \<open>\<open>w.CreateHeader(header)\<close>, the entry itself\<close>

datatype zcall =
    CreateHeader site string bool     \<comment> \<open>\<open>header.Name\<close> and whether the call failed\<close>
  | EntryWrite "byte list" bool       \<comment> \<open>\<open>writer.Write(copyBuffer[:n])\<close> and whether it failed\<close>

record zipw =
  zcalls :: "zcall list"
  zfail :: "bool list"

definition new_zip :: "bool list \<Rightarrow> zipw" where
  "new_zip fs = \<lparr>zcalls = [], zfail = fs\<rparr>"

definition next_fails :: "zipw \<Rightarrow> bool" where
  "next_fails z = (case zfail z of [] \<Rightarrow> False | b # _ \<Rightarrow> b)"

definition zip_CreateHeader :: "site \<Rightarrow> zipw \<Rightarrow> string \<Rightarrow> bool \<times> zipw" where
  "zip_CreateHeader st z name =
     (next_fails z, \<lparr>zcalls = zcalls z @ [CreateHeader st name (next_fails z)], zfail = tl (zfail z)\<rparr>)"

definition zip_Write :: "zipw \<Rightarrow> byte list \<Rightarrow> bool \<times> zipw" where
  "zip_Write z bs =
     (next_fails z, \<lparr>zcalls = zcalls z @ [EntryWrite bs (next_fails z)], zfail = tl (zfail z)\<rparr>)"

fun headers :: "zcall list \<Rightarrow> string list" where
  "headers [] = []"
| "headers (CreateHeader st name failed # cs) = (if failed then headers cs else name # headers cs)"
| "headers (EntryWrite bs failed # cs) = headers cs"

fun volume_headers :: "zcall list \<Rightarrow> string list" where
  "volume_headers [] = []"
| "volume_headers (CreateHeader Volume name failed # cs) = name # volume_headers cs"
| "volume_headers (c # cs) = volume_headers cs"

text \<open>The calls made for the entries themselves: all but the volume root headers.\<close>

fun entry_calls :: "zcall list \<Rightarrow> zcall list" where
  "entry_calls [] = []"
| "entry_calls (CreateHeader Volume name failed # cs) = entry_calls cs"
| "entry_calls (c # cs) = c # entry_calls cs"

text \<open>
  \<open>filepath.Walk\<close> stops at the first error the callback returns and returns it (the
  callbacks of this program never return \<open>filepath.SkipDir\<close>).
\<close>

fun Walk :: "('s \<Rightarrow> visit \<Rightarrow> error option \<times> 's) \<Rightarrow> 's \<Rightarrow> visit list \<Rightarrow> error option \<times> 's" where
  "Walk fn st [] = (None, st)"
| "Walk fn st (e # es) =
     (case fn st e of
        (Some err, st') \<Rightarrow> (Some err, st')
      | (None, st') \<Rightarrow> Walk fn st' es)"

section \<open>addFiles, variant of main.go\<close>

text \<open>
  The progress bar, the speed tracker and \<open>currentFile\<close> only feed the display and are left
  out. \<open>WaitIfPaused\<close> returns without any effect on the data when the run is not paused, and
  is left out of this sequential model.
\<close>

fun copy_v1 :: "zipw \<Rightarrow> (byte list \<times> rstatus) list \<Rightarrow> error option \<times> zipw" where
  "copy_v1 z [] = (None, z)"
| "copy_v1 z ((bs, rs) # rest) =
     (case (if length bs > 0 then zip_Write z bs else (False, z)) of
        (True, z') \<Rightarrow> (Some ZipError, z')
      | (False, z') \<Rightarrow>
          (case rs of
             More \<Rightarrow> copy_v1 z' rest
           | AtEOF \<Rightarrow> (None, z')
           | Broken \<Rightarrow> (Some ReadError, z')))"

definition visit_v1 :: "pathlib \<Rightarrow> string \<Rightarrow> string \<Rightarrow> zipw \<Rightarrow> visit \<Rightarrow> error option \<times> zipw" where
  "visit_v1 L basePath baseDir z e =
     (if walk_err e then (Some WalkError, z)
      else if header_err e then (Some HeaderError, z)
      else (case Rel L baseDir (path e) of
              Inl err \<Rightarrow> (Some RelError, z)
            | Inr rel \<Rightarrow>
                (let relPath = (if \<not> isDir e \<and> baseDir = Dir L basePath \<and> basePath = path e
                                then Base L (path e) else rel);
                     name = ToSlash L relPath @ (if isDir e then ''/'' else [])
                 in (case zip_CreateHeader Entry z name of
                       (True, z1) \<Rightarrow> (Some ZipError, z1)
                     | (False, z1) \<Rightarrow>
                         if isDir e then (None, z1)
                         else if open_err e then (Some OpenError, z1)
                         else copy_v1 z1 (reads e)))))"

definition addFiles_v1 :: "pathlib \<Rightarrow> zipw \<Rightarrow> source \<Rightarrow> error option \<times> zipw" where
  "addFiles_v1 L z src =
     (case stat src of
        None \<Rightarrow> (Some StatError, z)
      | Some d \<Rightarrow>
          (let baseDir = (if d then src_path src else Dir L (src_path src))
           in Walk (visit_v1 L (src_path src) baseDir) z (visits src)))"

text \<open>
  The fatal exits of \<open>main\<close> (\<open>log.Fatalf\<close>, \<open>log.Fatalln\<close>), in the order of the source.
\<close>

datatype fatal =
    SrcUnreadable                   \<comment> \<open>\<open>readLines("src.txt")\<close> failed\<close>
  | SrcEmpty
  | DstUnreadable                   \<comment> \<open>\<open>readLines("dst.txt")\<close> failed\<close>
  | DstEmpty
  | DestAbsFailed
  | SourceAbsFailed string
  | DestInsideSource string string  \<comment> \<open>the destination file and the source\<close>
  | ScanFailed string
  | CreateFailed string             \<comment> \<open>\<open>os.Create(destFile)\<close> failed\<close>
  | CompressFailed string error     \<comment> \<open>\<open>addFiles\<close> returned an error for this source\<close>

text \<open>The loop of \<open>main\<close> over the sources: the first error of \<open>addFiles\<close> ends the process.\<close>

fun compress_v1 :: "pathlib \<Rightarrow> zipw \<Rightarrow> source list \<Rightarrow> fatal option \<times> zipw" where
  "compress_v1 L z [] = (None, z)"
| "compress_v1 L z (src # rest) =
     (case addFiles_v1 L z src of
        (Some err, z') \<Rightarrow> (Some (CompressFailed (src_path src) err), z')
      | (None, z') \<Rightarrow> compress_v1 L z' rest)"

section \<open>addFiles, variant with the digest stage and the volume roots\<close>

datatype logmsg =
    LogWalkError string
  | LogHeaderError string
  | LogAbsError string
  | LogVolumeHeaderError string
  | LogCreateHeaderError string
  | LogOpenError string
  | LogWriteError string
  | LogReadError string

record run_v2 =
  zw :: zipw
  createdVolumes :: "string set"     \<comment> \<open>the keys of the map \<open>createdVolumes\<close> (only \<open>true\<close> is stored)\<close>
  logs :: "logmsg list"

definition new_run :: "bool list \<Rightarrow> run_v2" where
  "new_run fs = \<lparr>zw = new_zip fs, createdVolumes = {}, logs = []\<rparr>"

fun copy_v2 :: "run_v2 \<Rightarrow> string \<Rightarrow> (byte list \<times> rstatus) list \<Rightarrow> run_v2" where
  "copy_v2 st p [] = st"
| "copy_v2 st p ((bs, rs) # rest) =
     (case (if length bs > 0 then zip_Write (zw st) bs else (False, zw st)) of
        (True, z') \<Rightarrow> st\<lparr>zw := z', logs := logs st @ [LogWriteError p]\<rparr>
      | (False, z') \<Rightarrow>
          (case rs of
             More \<Rightarrow> copy_v2 (st\<lparr>zw := z'\<rparr>) p rest
           | AtEOF \<Rightarrow> st\<lparr>zw := z'\<rparr>
           | Broken \<Rightarrow> st\<lparr>zw := z', logs := logs st @ [LogReadError p]\<rparr>))"

text \<open>
  The first part of the callback: the root directory of the volume, created once per drive
  letter. The letter is marked as created whether or not \<open>CreateHeader\<close> failed.
\<close>

definition volume_root :: "run_v2 \<Rightarrow> string \<Rightarrow> run_v2" where
  "volume_root st driveLetter =
     (if driveLetter \<noteq> [] \<and> driveLetter \<notin> createdVolumes st then
        (case zip_CreateHeader Volume (zw st) (driveLetter @ ''/'') of
           (failed, z') \<Rightarrow>
             st\<lparr>zw := z',
                createdVolumes := insert driveLetter (createdVolumes st),
                logs := (if failed then logs st @ [LogVolumeHeaderError (driveLetter @ ''/'')]
                         else logs st)\<rparr>)
      else st)"

definition zipPath_of :: "pathlib \<Rightarrow> string \<Rightarrow> string" where
  "zipPath_of L absPath =
     (let volumeName = VolumeName L absPath;
          driveLetter = TrimSuffix volumeName '':'';
          pathWithoutVolume = TrimPrefix (TrimPrefix absPath volumeName) [PathSeparator L]
      in Join L driveLetter pathWithoutVolume)"

definition visit_v2 :: "pathlib \<Rightarrow> run_v2 \<Rightarrow> visit \<Rightarrow> error option \<times> run_v2" where
  "visit_v2 L st e =
     (if walk_err e then (None, st\<lparr>logs := logs st @ [LogWalkError (path e)]\<rparr>)
      else if header_err e then (None, st\<lparr>logs := logs st @ [LogHeaderError (path e)]\<rparr>)
      else (case Abs L (path e) of
              Inl err \<Rightarrow> (None, st\<lparr>logs := logs st @ [LogAbsError (path e)]\<rparr>)
            | Inr absPath \<Rightarrow>
                (let driveLetter = TrimSuffix (VolumeName L absPath) '':'';
                     st1 = volume_root st driveLetter;
                     zipPath = zipPath_of L absPath
                 in if zipPath = [] \<or> zipPath = ''.'' then (None, st1)
                    else
                      (let name = ToSlash L zipPath @ (if isDir e then ''/'' else [])
                       in (case zip_CreateHeader Entry (zw st1) name of
                             (True, z') \<Rightarrow>
                               (None, st1\<lparr>zw := z', logs := logs st1 @ [LogCreateHeaderError name]\<rparr>)
                           | (False, z') \<Rightarrow>
                               if isDir e then (None, st1\<lparr>zw := z'\<rparr>)
                               else if open_err e
                               then (None, st1\<lparr>zw := z', logs := logs st1 @ [LogOpenError (path e)]\<rparr>)
                               else (None, copy_v2 (st1\<lparr>zw := z'\<rparr>) (path e) (reads e)))))))"

definition addFiles_v2 :: "pathlib \<Rightarrow> run_v2 \<Rightarrow> source \<Rightarrow> error option \<times> run_v2" where
  "addFiles_v2 L st src = Walk (visit_v2 L) st (visits src)"

fun compress_v2 :: "pathlib \<Rightarrow> run_v2 \<Rightarrow> source list \<Rightarrow> fatal option \<times> run_v2" where
  "compress_v2 L st [] = (None, st)"
| "compress_v2 L st (src # rest) =
     (case addFiles_v2 L st src of
        (Some err, st') \<Rightarrow> (Some (CompressFailed (src_path src) err), st')
      | (None, st') \<Rightarrow> compress_v2 L st' rest)"

section \<open>The start of main: configuration and the destination check\<close>

text \<open>
  \<open>main\<close> reads the two lists with \<open>readLines\<close>, takes the first line of \<open>dst.txt\<close> as the
  destination, refuses a destination under a source, scans the sources for the totals and
  then creates the destination file. The results of \<open>readLines\<close>, of the scan and of
  \<open>os.Create\<close> are inputs of the model; \<open>os.Stat\<close> is a parameter (\<open>None\<close> is an error,
  \<open>Some d\<close> is \<open>info.IsDir()\<close>).
\<close>

fun dest_check_v1 :: "pathlib \<Rightarrow> string \<Rightarrow> string \<Rightarrow> string list \<Rightarrow> fatal option" where
  "dest_check_v1 L destFile absDest [] = None"
| "dest_check_v1 L destFile absDest (src # rest) =
     (case Abs L src of
        Inl e \<Rightarrow> Some (SourceAbsFailed src)
      | Inr absSource \<Rightarrow>
          if prefix absSource absDest then Some (DestInsideSource destFile src)
          else dest_check_v1 L destFile absDest rest)"

text \<open>
  The variant with the digest stage appends the separator to the absolute path of a source
  that \<open>os.Stat\<close> reports as a directory, unless the path ends with it already.
\<close>

definition with_separator :: "pathlib \<Rightarrow> (string \<Rightarrow> bool option) \<Rightarrow> string \<Rightarrow> string" where
  "with_separator L Stat absSource =
     (case Stat absSource of
        Some True \<Rightarrow>
          if \<not> suffix [PathSeparator L] absSource then absSource @ [PathSeparator L]
          else absSource
      | _ \<Rightarrow> absSource)"

fun dest_check_v2 ::
  "pathlib \<Rightarrow> (string \<Rightarrow> bool option) \<Rightarrow> string \<Rightarrow> string \<Rightarrow> string list \<Rightarrow> fatal option"
where
  "dest_check_v2 L Stat destFile absDest [] = None"
| "dest_check_v2 L Stat destFile absDest (src # rest) =
     (case Abs L src of
        Inl e \<Rightarrow> Some (SourceAbsFailed src)
      | Inr absSource \<Rightarrow>
          if prefix (with_separator L Stat absSource) absDest
          then Some (DestInsideSource destFile src)
          else dest_check_v2 L Stat destFile absDest rest)"

text \<open>
  From the start of \<open>main\<close> to \<open>os.Create\<close>. \<open>Inr destFile\<close>: the destination file has been
  created and the program goes on to write the archive. \<open>scan_err\<close> tells for which sources the
  scan of phase 1 ends with an error: fatal in main.go, only logged in the other variant.
\<close>

fun first_scan_error :: "(string \<Rightarrow> bool) \<Rightarrow> string list \<Rightarrow> fatal option" where
  "first_scan_error scan_err [] = None"
| "first_scan_error scan_err (src # rest) =
     (if scan_err src then Some (ScanFailed src) else first_scan_error scan_err rest)"

definition startup_v1 ::
  "pathlib \<Rightarrow> error + string list \<Rightarrow> error + string list \<Rightarrow> (string \<Rightarrow> bool) \<Rightarrow> bool \<Rightarrow> fatal + string"
where
  "startup_v1 L src_txt dst_txt scan_err create_err =
     (case src_txt of
        Inl e \<Rightarrow> Inl SrcUnreadable
      | Inr sources \<Rightarrow>
          if sources = [] then Inl SrcEmpty
          else (case dst_txt of
                  Inl e \<Rightarrow> Inl DstUnreadable
                | Inr [] \<Rightarrow> Inl DstEmpty
                | Inr (destFile # others) \<Rightarrow>
                    (case Abs L destFile of
                       Inl e \<Rightarrow> Inl DestAbsFailed
                     | Inr absDest \<Rightarrow>
                         (case dest_check_v1 L destFile absDest sources of
                            Some f \<Rightarrow> Inl f
                          | None \<Rightarrow>
                              (case first_scan_error scan_err sources of
                                 Some f \<Rightarrow> Inl f
                               | None \<Rightarrow>
                                   if create_err then Inl (CreateFailed destFile)
                                   else Inr destFile)))))"

definition startup_v2 ::
  "pathlib \<Rightarrow> (string \<Rightarrow> bool option) \<Rightarrow> error + string list \<Rightarrow> error + string list \<Rightarrow> bool
     \<Rightarrow> fatal + string"
where
  "startup_v2 L Stat src_txt dst_txt create_err =
     (case src_txt of
        Inl e \<Rightarrow> Inl SrcUnreadable
      | Inr sources \<Rightarrow>
          if sources = [] then Inl SrcEmpty
          else (case dst_txt of
                  Inl e \<Rightarrow> Inl DstUnreadable
                | Inr [] \<Rightarrow> Inl DstEmpty
                | Inr (destFile # others) \<Rightarrow>
                    (case Abs L destFile of
                       Inl e \<Rightarrow> Inl DestAbsFailed
                     | Inr absDest \<Rightarrow>
                         (case dest_check_v2 L Stat destFile absDest sources of
                            Some f \<Rightarrow> Inl f
                          | None \<Rightarrow>
                              if create_err then Inl (CreateFailed destFile)
                              else Inr destFile))))"

text \<open>
  The fatal exits that come before \<open>os.Create(destFile)\<close> is called: when \<open>main\<close> ends with one
  of them, the destination file has not been created and no byte has been written to it.
\<close>

fun before_create :: "fatal \<Rightarrow> bool" where
  "before_create (CreateFailed d) = False"
| "before_create (CompressFailed s e) = False"
| "before_create f = True"

text \<open>
  The notion of the specification, "a destination path located inside a configured source",
  on absolute paths: the destination continues the source path after a separator. It is
  used to state the claims only; the program tests string prefixes.
\<close>

definition lies_inside :: "char \<Rightarrow> string \<Rightarrow> string \<Rightarrow> bool" where
  "lies_inside sep absDest absSource =
     (let dir = (if suffix [sep] absSource then absSource else absSource @ [sep])
      in prefix dir absDest \<and> length dir < length absDest)"

section \<open>Volume roots in first-encounter order\<close>

text \<open>
  The drive letter the callback computes for an entry, for the entries that get as far as
  computing it, and the letters met for the first time, in order.
\<close>

definition letter_of :: "pathlib \<Rightarrow> visit \<Rightarrow> string option" where
  "letter_of L e =
     (if walk_err e \<or> header_err e then None
      else (case Abs L (path e) of
              Inl err \<Rightarrow> None
            | Inr absPath \<Rightarrow> Some (TrimSuffix (VolumeName L absPath) '':'')))"

fun new_letters :: "string set \<Rightarrow> string option list \<Rightarrow> string list" where
  "new_letters seen [] = []"
| "new_letters seen (None # ds) = new_letters seen ds"
| "new_letters seen (Some d # ds) =
     (if d = [] \<or> d \<in> seen then new_letters seen ds else d # new_letters (insert d seen) ds)"

text \<open>The state after the volume-root step of the callback, for any entry.\<close>

definition after_root :: "pathlib \<Rightarrow> run_v2 \<Rightarrow> visit \<Rightarrow> run_v2" where
  "after_root L st e = (case letter_of L e of None \<Rightarrow> st | Some d \<Rightarrow> volume_root st d)"

section \<open>Stand-ins for package filepath in the examples\<close>

text \<open>
  The concrete examples need concrete path functions. \<open>clean_paths sep drives\<close> agrees with
  package \<open>filepath\<close> on clean absolute paths, with separator \<open>sep\<close> and, when \<open>drives\<close> holds,
  drive letters as volume names: \<open>Abs\<close> returns such a path as it is, \<open>Rel\<close> is computed for a
  target that is the base or lies below it, \<open>Join\<close> for clean elements.
\<close>

definition backslash :: char where
  "backslash = CHR 0x5C"

definition clean_paths :: "char \<Rightarrow> bool \<Rightarrow> pathlib" where
  "clean_paths sep drives =
     \<lparr>PathSeparator = sep,
      Abs = Inr,
      Rel = (\<lambda>base p. if p = base then Inr ''.''
                       else if prefix (base @ [sep]) p then Inr (drop (length base + 1) p)
                       else Inl RelError),
      Dir = (\<lambda>p. let d = rev (dropWhile (\<lambda>c. c \<noteq> sep) (rev p))
                  in if length d \<le> 1 \<or> (drives \<and> length d = 3) then d else butlast d),
      Base = (\<lambda>p. rev (takeWhile (\<lambda>c. c \<noteq> sep) (rev p))),
      VolumeName = (\<lambda>p. if drives \<and> length p \<ge> 2 \<and> p ! 1 = CHR '':'' then take 2 p else []),
      Join = (\<lambda>a b. if a = [] then b else if b = [] then a else a @ [sep] @ b),
      ToSlash = map (\<lambda>c. if c = sep then CHR ''/'' else c)\<rparr>"

definition a_file :: "string \<Rightarrow> (byte list \<times> rstatus) list \<Rightarrow> visit" where
  "a_file p rs = \<lparr>path = p, isDir = False, walk_err = False, header_err = False,
                  open_err = False, reads = rs\<rparr>"

definition a_dir :: "string \<Rightarrow> visit" where
  "a_dir p = \<lparr>path = p, isDir = True, walk_err = False, header_err = False,
               open_err = False, reads = []\<rparr>"

section \<open>PauseController and the gated producer\<close>

text \<open>
  The flag \<open>paused\<close> is 0 or 1; \<open>mu\<close> and \<open>cond\<close> make \<open>Toggle\<close> and the test of \<open>WaitIfPaused\<close>
  atomic. \<open>Toggle\<close> flips the flag (and wakes the waiters when it clears it). \<open>WaitIfPaused\<close>
  returns when it finds the flag clear and does not return while the flag is set: \<open>None\<close> is
  "blocked".
\<close>

record PauseController =
  paused :: bool

definition NewPauseController :: PauseController where
  "NewPauseController = \<lparr>paused = False\<rparr>"

definition Toggle :: "PauseController \<Rightarrow> PauseController" where
  "Toggle pc = (if \<not> paused pc then pc\<lparr>paused := True\<rparr> else pc\<lparr>paused := False\<rparr>)"

definition WaitIfPaused :: "PauseController \<Rightarrow> PauseController option" where
  "WaitIfPaused pc = (if paused pc then None else Some pc)"

definition IsPaused :: "PauseController \<Rightarrow> bool" where
  "IsPaused pc = paused pc"

text \<open>
  What the producer (the goroutine of \<open>main\<close>) does, in order, as far as the pause is
  concerned: the calls of \<open>WaitIfPaused\<close>, of \<open>CreateHeader\<close>, of \<open>file.Read\<close> and of
  \<open>writer.Write\<close>, and at the end of a run that was not aborted \<open>zipWriter.Close()\<close> with
  \<open>bufferedFile.Flush()\<close>. The functions below follow the control flow of the copy loop, of
  the two callbacks and of the two loops of \<open>main\<close>, with the same inputs and the same states
  as the functions above.
\<close>

datatype pevent =
    Gate          \<comment> \<open>\<open>pauseController.WaitIfPaused()\<close>\<close>
  | Header        \<comment> \<open>\<open>w.CreateHeader(_)\<close>\<close>
  | ReadChunk     \<comment> \<open>\<open>file.Read(copyBuffer)\<close>\<close>
  | WriteChunk    \<comment> \<open>\<open>writer.Write(copyBuffer[:n])\<close>\<close>
  | Finish        \<comment> \<open>\<open>zipWriter.Close()\<close> and \<open>bufferedFile.Flush()\<close>\<close>

fun copy_events :: "zipw \<Rightarrow> (byte list \<times> rstatus) list \<Rightarrow> pevent list" where
  "copy_events z [] = [Gate, ReadChunk]"
| "copy_events z ((bs, rs) # rest) =
     [Gate, ReadChunk] @
     (if length bs > 0 then
        (case zip_Write z bs of
           (True, z') \<Rightarrow> [WriteChunk]
         | (False, z') \<Rightarrow> WriteChunk # (case rs of More \<Rightarrow> copy_events z' rest | _ \<Rightarrow> []))
      else (case rs of More \<Rightarrow> copy_events z rest | _ \<Rightarrow> []))"

definition visit_events_v1 :: "pathlib \<Rightarrow> string \<Rightarrow> string \<Rightarrow> zipw \<Rightarrow> visit \<Rightarrow> pevent list" where
  "visit_events_v1 L basePath baseDir z e =
     (if walk_err e then []
      else Gate #
        (if header_err e then []
         else (case Rel L baseDir (path e) of
                 Inl err \<Rightarrow> []
               | Inr rel \<Rightarrow>
                   (let relPath = (if \<not> isDir e \<and> baseDir = Dir L basePath \<and> basePath = path e
                                   then Base L (path e) else rel);
                        name = ToSlash L relPath @ (if isDir e then ''/'' else [])
                    in (case zip_CreateHeader Entry z name of
                          (True, z1) \<Rightarrow> [Header]
                        | (False, z1) \<Rightarrow>
                            Header # (if isDir e \<or> open_err e then [] else copy_events z1 (reads e)))))))"

fun walk_events_v1 :: "pathlib \<Rightarrow> string \<Rightarrow> string \<Rightarrow> zipw \<Rightarrow> visit list \<Rightarrow> pevent list" where
  "walk_events_v1 L basePath baseDir z [] = []"
| "walk_events_v1 L basePath baseDir z (e # es) =
     visit_events_v1 L basePath baseDir z e @
     (case visit_v1 L basePath baseDir z e of
        (Some err, z') \<Rightarrow> []
      | (None, z') \<Rightarrow> walk_events_v1 L basePath baseDir z' es)"

text \<open>
  main.go: a fatal error ends the process at once, without the deferred \<open>Close\<close> and
  \<open>Flush\<close>; after the last source they run.
\<close>

fun main_events_v1 :: "pathlib \<Rightarrow> zipw \<Rightarrow> source list \<Rightarrow> pevent list" where
  "main_events_v1 L z [] = [Finish]"
| "main_events_v1 L z (src # rest) =
     (case stat src of
        None \<Rightarrow> []
      | Some d \<Rightarrow>
          walk_events_v1 L (src_path src) (if d then src_path src else Dir L (src_path src)) z
             (visits src) @
          (case addFiles_v1 L z src of
             (Some err, z') \<Rightarrow> []
           | (None, z') \<Rightarrow> main_events_v1 L z' rest))"

definition visit_events_v2 :: "pathlib \<Rightarrow> run_v2 \<Rightarrow> visit \<Rightarrow> pevent list" where
  "visit_events_v2 L st e =
     (if walk_err e then []
      else Gate #
        (if header_err e then []
         else (case Abs L (path e) of
                 Inl err \<Rightarrow> []
               | Inr absPath \<Rightarrow>
                   (let driveLetter = TrimSuffix (VolumeName L absPath) '':'';
                        st1 = volume_root st driveLetter;
                        zipPath = zipPath_of L absPath
                    in (if driveLetter \<noteq> [] \<and> driveLetter \<notin> createdVolumes st then [Header] else []) @
                       (if zipPath = [] \<or> zipPath = ''.'' then []
                        else
                          (let name = ToSlash L zipPath @ (if isDir e then ''/'' else [])
                           in (case zip_CreateHeader Entry (zw st1) name of
                                 (True, z') \<Rightarrow> [Header]
                               | (False, z') \<Rightarrow>
                                   Header # (if isDir e \<or> open_err e then []
                                             else copy_events z' (reads e)))))))))"

text \<open>
  The variant with the digest stage: every entry of every source is visited, then \<open>main\<close>
  closes the archive and flushes the buffer.
\<close>

fun main_events_v2 :: "pathlib \<Rightarrow> run_v2 \<Rightarrow> visit list \<Rightarrow> pevent list" where
  "main_events_v2 L st [] = [Finish]"
| "main_events_v2 L st (e # es) =
     visit_events_v2 L st e @ main_events_v2 L (snd (visit_v2 L st e)) es"

text \<open>
  Where the calls of \<open>WaitIfPaused\<close> stand among the events. \<open>since\<close> holds the events the
  producer has taken since its last \<open>WaitIfPaused\<close> (\<open>None\<close>: it has not called it yet). A
  \<open>CreateHeader\<close> is permitted when nothing but fewer than \<open>k\<close> other \<open>CreateHeader\<close> calls has
  happened since the last \<open>WaitIfPaused\<close>, a \<open>file.Read\<close> right after a \<open>WaitIfPaused\<close>, and a
  \<open>writer.Write\<close> right after that \<open>file.Read\<close>. \<open>gated k since evs\<close> says that every event of
  \<open>evs\<close> is permitted where it stands. \<open>k\<close> is 1 for main.go (the header of the entry) and 2
  for the variant with the volume roots (the root of the volume, then the header of the entry).
\<close>

fun permitted :: "nat \<Rightarrow> pevent list option \<Rightarrow> pevent \<Rightarrow> bool" where
  "permitted k since Gate = True"
| "permitted k since Finish = True"
| "permitted k since Header =
     (case since of None \<Rightarrow> False | Some l \<Rightarrow> l = replicate (length l) Header \<and> length l < k)"
| "permitted k since ReadChunk = (since = Some [])"
| "permitted k since WriteChunk = (since = Some [ReadChunk])"

definition next_since :: "pevent list option \<Rightarrow> pevent \<Rightarrow> pevent list option" where
  "next_since since ev = (if ev = Gate then Some [] else map_option (\<lambda>l. l @ [ev]) since)"

fun gated :: "nat \<Rightarrow> pevent list option \<Rightarrow> pevent list \<Rightarrow> bool" where
  "gated k since [] = True"
| "gated k since (ev # rest) = (permitted k since ev \<and> gated k (next_since since ev) rest)"

text \<open>The events other than the closing of the archive.\<close>

definition work :: "pevent list \<Rightarrow> pevent list" where
  "work evs = filter (\<lambda>ev. ev \<noteq> Finish) evs"

text \<open>
  The run with the keyboard: the goroutine that reads standard input calls \<open>Toggle\<close> at any
  moment, between two steps of the producer. The producer takes its next step, unless that
  step is a \<open>WaitIfPaused\<close> that does not return. The log keeps every step of the producer
  with the value of the flag at that moment, and every \<open>Toggle\<close> with the new value.
\<close>

datatype actor = Producer | Keyboard

datatype logged = Toggled bool | Did pevent bool

record pause_run =
  gate :: PauseController
  program :: "pevent list"
  plog :: "logged list"

definition begin_run :: "pevent list \<Rightarrow> pause_run" where
  "begin_run evs = \<lparr>gate = NewPauseController, program = evs, plog = []\<rparr>"

fun act :: "actor \<Rightarrow> pause_run \<Rightarrow> pause_run option" where
  "act Keyboard s =
     Some (s\<lparr>gate := Toggle (gate s), plog := plog s @ [Toggled (paused (Toggle (gate s)))]\<rparr>)"
| "act Producer s =
     (case program s of
        [] \<Rightarrow> None
      | ev # rest \<Rightarrow>
          if ev = Gate then
            (case WaitIfPaused (gate s) of
               None \<Rightarrow> None
             | Some g \<Rightarrow> Some (s\<lparr>gate := g, program := rest, plog := plog s @ [Did Gate (paused g)]\<rparr>))
          else Some (s\<lparr>program := rest, plog := plog s @ [Did ev (paused (gate s))]\<rparr>))"

fun play :: "actor list \<Rightarrow> pause_run \<Rightarrow> pause_run option" where
  "play [] s = Some s"
| "play (a # as) s = (case act a s of None \<Rightarrow> None | Some s' \<Rightarrow> play as s')"

text \<open>The steps of the producer in a log, in order.\<close>

fun done_events :: "logged list \<Rightarrow> pevent list" where
  "done_events [] = []"
| "done_events (Toggled b # l) = done_events l"
| "done_events (Did ev b # l) = ev # done_events l"

text \<open>
  The calls on the archive writer among the events, and the event a call in the log of the
  archive writer stands for: the two descriptions of the producer agree on them (lemmas
  \<open>main_events_v1_calls\<close> and \<open>main_events_v2_calls\<close> below).
\<close>

definition archive_events :: "pevent list \<Rightarrow> pevent list" where
  "archive_events evs = filter (\<lambda>ev. ev = Header \<or> ev = WriteChunk) evs"

fun kind :: "zcall \<Rightarrow> pevent" where
  "kind (CreateHeader st name failed) = Header"
| "kind (EntryWrite bs failed) = WriteChunk"

section \<open>Verification\<close>


subsection \<open>The coalescing buffer\<close>

lemma Flush_post:
  assumes "Flush bw = (e, bw')"
  shows "buffer bw' = buffer bw" "offset bw' = 0"
     "calls (writer bw') = calls (writer bw) @ (if offset bw = 0 then [] else [pending bw])"
     "set (script (writer bw')) \<subseteq> set (script (writer bw))"
     "e \<noteq> None \<Longrightarrow> \<not> no_failure (script (writer bw))"
  using assms 
  by (auto simp: Flush_def sink_write_def pending_def Let_def answer_def no_failure_def 
      split: if_splits prod.splits list.splits outcome.splits dest: list.set_sel(2))

lemma copy_in_simps:
  "writer (copy_in bw p s c) = writer bw"
  "offset (copy_in bw p s c) = offset bw + c"
  "buffer (copy_in bw p s c) = take (offset bw) (buffer bw) @ take c (drop s p) @ drop (offset bw + c) (buffer bw)"
  by (simp_all add: copy_in_def)

lemma copy_in_length:
  assumes "offset bw + c \<le> length (buffer bw)" "s + c \<le> length p"
  shows "length (buffer (copy_in bw p s c)) = length (buffer bw)"
  using assms by (simp add: copy_in_simps)

lemma copy_in_pending:
  assumes "offset bw + c \<le> length (buffer bw)" "s + c \<le> length p"
  shows "pending (copy_in bw p s c) = pending bw @ take c (drop s p)"
  using assms by (simp add: pending_def copy_in_simps)

lemma wl_post_done:
  assumes "offset bw \<le> length (buffer bw)"
  shows "wl_post bw p (length p) ((length p, None), bw)"
  using assms by (simp add: wl_post_def)

lemma wl_post_fail:
  assumes "Flush bw = (Some e, bw1)" "offset bw = length (buffer bw)"
  shows "wl_post bw p s ((n, Some e), bw1)"
  using Flush_post[OF assms(1)] assms(2)
  by (auto simp: wl_post_def pending_def)

lemma wl_post_step:
  assumes post: "wl_post (copy_in bw1 p s c) p (s + c) y"
    and c: "offset bw1 + c \<le> length (buffer bw1)" "s + c \<le> length p"
    and bw1: "length (buffer bw1) = length (buffer bw)" 
       "set (script (writer bw1)) \<subseteq> set (script (writer bw))"
       "\<exists>pre. calls (writer bw1) = calls (writer bw) @ pre \<and> (\<forall>x\<in>set pre. length x = length (buffer bw))
           \<and> concat pre @ pending bw1 = pending bw"
  shows "wl_post bw p s y"
proof -
  let ?bw2 = "copy_in bw1 p s c"
  have len2: "length (buffer ?bw2) = length (buffer bw)"
    using copy_in_length[OF c] bw1(1) by simp
  have pend2: "pending ?bw2 = pending bw1 @ take c (drop s p)"
    by (rule copy_in_pending[OF c])
  from bw1(3) obtain pre where pre: "calls (writer bw1) = calls (writer bw) @ pre"
      "\<forall>x\<in>set pre. length x = length (buffer bw)" "concat pre @ pending bw1 = pending bw"
    by blast
  from post obtain new where new: "calls (writer (snd y)) = calls (writer ?bw2) @ new"
      "\<forall>x\<in>set new. length x = length (buffer ?bw2)"
      "snd (fst y) = None \<longrightarrow> concat new @ pending (snd y) = pending ?bw2 @ drop (s + c) p"
    unfolding wl_post_def by (elim conjE exE) auto
  have calls: "calls (writer (snd y)) = calls (writer bw) @ (pre @ new)"
    using new(1) pre(1) by (simp add: copy_in_simps)
  have sizes: "\<forall>x\<in>set (pre @ new). length x = length (buffer bw)"
    using pre(2) new(2) len2 by auto
  have takedrop: "take c (drop s p) @ drop (s + c) p = drop s p"
    by (metis add.commute append_take_drop_id drop_drop)
  have data: "snd (fst y) = None \<longrightarrow> concat (pre @ new) @ pending (snd y) = pending bw @ drop s p"
  proof
    assume "snd (fst y) = None"
    with new(3) have "concat new @ pending (snd y) = pending bw1 @ take c (drop s p) @ drop (s + c) p"
      by (simp add: pend2)
    then have "concat (pre @ new) @ pending (snd y) = (concat pre @ pending bw1) @ drop s p"
      by (simp add: takedrop)
    then show "concat (pre @ new) @ pending (snd y) = pending bw @ drop s p"
      by (simp only: pre(3))
  qed
  have scr: "set (script (writer (snd y))) \<subseteq> set (script (writer bw))"
    using post bw1(2) by (auto simp: wl_post_def copy_in_simps)
  have nf: "snd (fst y) \<noteq> None \<longrightarrow> \<not> no_failure (script (writer bw))"
    using post bw1(2) by (auto simp: wl_post_def copy_in_simps no_failure_def)
  from post have "length (buffer (snd y)) = length (buffer bw) \<and> offset (snd y) \<le> length (buffer bw)"
    by (simp add: wl_post_def len2)
  with calls sizes data scr nf show ?thesis
    unfolding wl_post_def by (intro conjI exI[of _ "pre @ new"]) simp_all
qed


lemma write_loop_post:
  assumes "write_loop bw p remaining srcOffset = Some y"
  shows "offset bw \<le> length (buffer bw) \<longrightarrow> srcOffset + remaining = length p \<longrightarrow> wl_post bw p srcOffset y"
proof (rule write_loop.raw_induct[where P = "\<lambda>bw p remaining srcOffset y.
      offset bw \<le> length (buffer bw) \<longrightarrow> srcOffset + remaining = length p \<longrightarrow> wl_post bw p srcOffset y",
      OF _ assms], goal_cases)
  case (1 wl bw p remaining srcOffset y)
  show ?case
  proof (intro impI)
    assume inv: "offset bw \<le> length (buffer bw)" and len: "srcOffset + remaining = length p"
    show "wl_post bw p srcOffset y"
    proof (cases "remaining > 0")
      case False
      with 1(2) have "y = ((length p, None), bw)" by simp
      moreover from False len have "srcOffset = length p" by simp
      ultimately show ?thesis using wl_post_done[OF inv] by simp
    next
      case True
      show ?thesis
      proof (cases "length (buffer bw) - offset bw = 0")
        case full: True
        with inv have off: "offset bw = length (buffer bw)" by simp
        obtain eo bw1 where fl: "Flush bw = (eo, bw1)" by (cases "Flush bw")
        note fp = Flush_post[OF fl]
        show ?thesis
        proof (cases eo)
          case (Some e)
          with 1(2) True full fl have "y = ((length p - remaining, Some e), bw1)" by simp
          with wl_post_fail[OF fl[unfolded Some] off] show ?thesis by simp
        next
          case None
          define c where "c = (if remaining > length (buffer bw1) then length (buffer bw1) else remaining)"
          from 1(2) True full fl None
          have rec: "wl (copy_in bw1 p srcOffset c) p (remaining - c) (srcOffset + c) = Some y"
            by (simp add: c_def Let_def)
          have c1: "offset bw1 + c \<le> length (buffer bw1)" using fp by (simp add: c_def)
          have c2: "srcOffset + c \<le> length p" using len by (simp add: c_def)
          have "offset (copy_in bw1 p srcOffset c) \<le> length (buffer (copy_in bw1 p srcOffset c))"
            using copy_in_length[OF c1 c2] c1 by (simp add: copy_in_simps)
          moreover have "srcOffset + c + (remaining - c) = length p" using len by (simp add: c_def)
          ultimately have post: "wl_post (copy_in bw1 p srcOffset c) p (srcOffset + c) y"
            using 1(1)[OF rec] by simp
          have pre: "\<exists>pre. calls (writer bw1) = calls (writer bw) @ pre \<and>
                 (\<forall>x\<in>set pre. length x = length (buffer bw)) \<and> concat pre @ pending bw1 = pending bw"
          proof (cases "offset bw = 0")
            case True
            with fp show ?thesis by (simp add: pending_def)
          next
            case False
            with fp off show ?thesis
              by (intro exI[of _ "[pending bw]"]) (simp add: pending_def)
          qed
          show ?thesis
            by (rule wl_post_step[OF post c1 c2 arg_cong[OF fp(1)] fp(4) pre])
        qed
      next
        case room: False
        define c where "c = (if remaining > length (buffer bw) - offset bw then length (buffer bw) - offset bw else remaining)"
        from 1(2) True room
        have rec: "wl (copy_in bw p srcOffset c) p (remaining - c) (srcOffset + c) = Some y"
          by (simp add: c_def Let_def)
        have c1: "offset bw + c \<le> length (buffer bw)" using inv unfolding c_def by auto
        have c2: "srcOffset + c \<le> length p" using len by (simp add: c_def)
        have "offset (copy_in bw p srcOffset c) \<le> length (buffer (copy_in bw p srcOffset c))"
          using copy_in_length[OF c1 c2] c1 by (simp add: copy_in_simps)
        moreover have "srcOffset + c + (remaining - c) = length p" using len by (simp add: c_def)
        ultimately have post: "wl_post (copy_in bw p srcOffset c) p (srcOffset + c) y"
          using 1(1)[OF rec] by simp
        have pre: "\<exists>pre. calls (writer bw) = calls (writer bw) @ pre \<and>
                 (\<forall>x\<in>set pre. length x = length (buffer bw)) \<and> concat pre @ pending bw = pending bw"
          by (intro exI[of _ "[]"]) simp
        show ?thesis
          by (rule wl_post_step[OF post c1 c2 refl subset_refl pre])
      qed
    qed
  qed
qed

lemma write_loop_returns:
  assumes "0 < length (buffer bw)" "offset bw \<le> length (buffer bw)" "srcOffset + remaining = length p"
  shows "\<exists>y. write_loop bw p remaining srcOffset = Some y"
  using assms
proof (induction remaining arbitrary: bw srcOffset rule: less_induct)
  case (less remaining)
  show ?case
  proof (cases "remaining > 0")
    case False
    then show ?thesis by (subst write_loop.simps) simp
  next
    case True
    show ?thesis
    proof (cases "length (buffer bw) - offset bw = 0")
      case full: True
      obtain eo bw1 where fl: "Flush bw = (eo, bw1)" by (cases "Flush bw")
      note fp = Flush_post[OF fl]
      show ?thesis
      proof (cases eo)
        case (Some e)
        with True full fl show ?thesis by (subst write_loop.simps) simp
      next
        case None
        define c where "c = (if remaining > length (buffer bw1) then length (buffer bw1) else remaining)"
        have cpos: "0 < c" using True less.prems(1) fp(1) by (simp add: c_def)
        have c1: "offset bw1 + c \<le> length (buffer bw1)" using fp by (simp add: c_def)
        have c2: "srcOffset + c \<le> length p" using less.prems(3) by (simp add: c_def)
        have l2: "length (buffer (copy_in bw1 p srcOffset c)) = length (buffer bw)"
          using copy_in_length[OF c1 c2] fp(1) by simp
        have "\<exists>y. write_loop (copy_in bw1 p srcOffset c) p (remaining - c) (srcOffset + c) = Some y"
        proof (rule less.IH)
          show "remaining - c < remaining" using cpos True by simp
          show "0 < length (buffer (copy_in bw1 p srcOffset c))" using l2 less.prems(1) by simp
          show "offset (copy_in bw1 p srcOffset c) \<le> length (buffer (copy_in bw1 p srcOffset c))"
            using l2 c1 fp(1) by (simp add: copy_in_simps)
          show "srcOffset + c + (remaining - c) = length p" using less.prems(3) by (simp add: c_def)
        qed
        with True full fl None show ?thesis
          by (subst write_loop.simps) (simp add: c_def Let_def)
      qed
    next
      case room: False
      define c where "c = (if remaining > length (buffer bw) - offset bw then length (buffer bw) - offset bw else remaining)"
      have cpos: "0 < c" using True room by (simp add: c_def)
      have c1: "offset bw + c \<le> length (buffer bw)" using less.prems(2) unfolding c_def by auto
      have c2: "srcOffset + c \<le> length p" using less.prems(3) by (simp add: c_def)
      have l2: "length (buffer (copy_in bw p srcOffset c)) = length (buffer bw)"
        using copy_in_length[OF c1 c2] by simp
      have "\<exists>y. write_loop (copy_in bw p srcOffset c) p (remaining - c) (srcOffset + c) = Some y"
      proof (rule less.IH)
        show "remaining - c < remaining" using cpos True by simp
        show "0 < length (buffer (copy_in bw p srcOffset c))" using l2 less.prems(1) by simp
        show "offset (copy_in bw p srcOffset c) \<le> length (buffer (copy_in bw p srcOffset c))"
          using l2 c1 by (simp add: copy_in_simps)
        show "srcOffset + c + (remaining - c) = length p" using less.prems(3) by (simp add: c_def)
      qed
      with True room show ?thesis
        by (subst write_loop.simps) (simp add: c_def Let_def)
    qed
  qed
qed


lemma no_failure_mono: "set sc' \<subseteq> set sc \<Longrightarrow> no_failure sc \<Longrightarrow> no_failure sc'"
  by (auto simp: no_failure_def)

lemma Write_post:
  assumes "Write bw p = Some y" "offset bw \<le> length (buffer bw)"
  shows "wl_post bw p 0 y"
  using write_loop_post[of bw p "length p" 0 y] assms by (simp add: Write_def)

lemma Write_returns:
  assumes "0 < length (buffer bw)" "offset bw \<le> length (buffer bw)"
  shows "\<exists>y. Write bw p = Some y"
  using write_loop_returns[of bw 0 "length p" p] assms by (simp add: Write_def)

lemma ws_post_compose:
  assumes w: "wl_post bw p 0 ((n, None), bw1)" and r: "ws_post bw1 ps r"
  shows "ws_post bw (p # ps) r"
proof -
  from w obtain n1 where n1: "calls (writer bw1) = calls (writer bw) @ n1"
      "\<forall>c\<in>set n1. length c = length (buffer bw)" "concat n1 @ pending bw1 = pending bw @ p"
      and l1: "length (buffer bw1) = length (buffer bw)"
      and s1: "set (script (writer bw1)) \<subseteq> set (script (writer bw))"
    unfolding wl_post_def by (elim conjE exE) auto
  from r obtain n2 where n2: "calls (writer (snd r)) = calls (writer bw1) @ n2"
      "\<forall>c\<in>set n2. length c = length (buffer bw1)"
      "fst r = None \<longrightarrow> concat n2 @ pending (snd r) = pending bw1 @ concat ps"
      and l2: "length (buffer (snd r)) = length (buffer bw1)" "offset (snd r) \<le> length (buffer bw1)"
      and s2: "set (script (writer (snd r))) \<subseteq> set (script (writer bw1))"
      and f2: "fst r \<noteq> None \<longrightarrow> \<not> no_failure (script (writer bw1))"
    unfolding ws_post_def by (elim conjE exE) auto
  have a: "calls (writer (snd r)) = calls (writer bw) @ (n1 @ n2)" using n1(1) n2(1) by simp
  have b: "\<forall>c\<in>set (n1 @ n2). length c = length (buffer bw)" using n1(2) n2(2) l1 by auto
  have c: "fst r = None \<longrightarrow> concat (n1 @ n2) @ pending (snd r) = pending bw @ concat (p # ps)"
  proof
    assume "fst r = None"
    with n2(3) have "concat (n1 @ n2) @ pending (snd r) = (concat n1 @ pending bw1) @ concat ps" by simp
    then show "concat (n1 @ n2) @ pending (snd r) = pending bw @ concat (p # ps)"
      by (simp only: n1(3)) simp
  qed
  have d: "fst r \<noteq> None \<longrightarrow> \<not> no_failure (script (writer bw))"
    using f2 s1 no_failure_mono by blast
  have e: "set (script (writer (snd r))) \<subseteq> set (script (writer bw))" using s1 s2 by blast
  from a b c d e l1 l2 show ?thesis
    unfolding ws_post_def by (intro conjI exI[of _ "n1 @ n2"]) simp_all
qed

lemma writes_post:
  assumes "writes bw ps = Some r" "offset bw \<le> length (buffer bw)"
  shows "ws_post bw ps r"
  using assms
proof (induction ps arbitrary: bw)
  case Nil
  then show ?case by (auto simp: ws_post_def)
next
  case (Cons p ps)
  from Cons.prems(1) obtain n eo bw1 where W: "Write bw p = Some ((n, eo), bw1)"
    by (auto split: option.splits)
  note wp = Write_post[OF W Cons.prems(2)]
  show ?case
  proof (cases eo)
    case None
    with Cons.prems(1) W have rec: "writes bw1 ps = Some r" by simp
    from wp have "offset bw1 \<le> length (buffer bw1)" by (simp add: wl_post_def)
    from Cons.IH[OF rec this] have "ws_post bw1 ps r" .
    with wp[unfolded None] show ?thesis by (rule ws_post_compose)
  next
    case (Some e)
    with Cons.prems(1) W have "r = (Some e, bw1)" by simp
    with wp Some show ?thesis by (auto simp: ws_post_def wl_post_def)
  qed
qed

lemma writes_returns:
  assumes "0 < length (buffer bw)" "offset bw \<le> length (buffer bw)"
  shows "\<exists>r. writes bw ps = Some r"
  using assms
proof (induction ps arbitrary: bw)
  case Nil
  then show ?case by simp
next
  case (Cons p ps)
  from Write_returns[OF Cons.prems] obtain n eo bw1 where W: "Write bw p = Some ((n, eo), bw1)"
    by (metis surj_pair)
  note wp = Write_post[OF W Cons.prems(2)]
  show ?case
  proof (cases eo)
    case None
    from wp Cons.prems have "0 < length (buffer bw1)" "offset bw1 \<le> length (buffer bw1)"
      by (simp_all add: wl_post_def)
    from Cons.IH[OF this] W None show ?thesis by simp
  next
    case (Some e)
    with W show ?thesis by simp
  qed
qed

lemma New_simps:
  "length (buffer (NewBufferedWriter w cap)) = cap" "offset (NewBufferedWriter w cap) = 0"
  "writer (NewBufferedWriter w cap) = w" "pending (NewBufferedWriter w cap) = []"
  by (simp_all add: NewBufferedWriter_def pending_def)

lemma new_sink_simps: "calls (new_sink sc) = []" "script (new_sink sc) = sc"
  by (simp_all add: new_sink_def)

text \<open>
  Claim C1. For every capacity, every sink and every sequence of \<open>Write\<close> calls followed by
  the final \<open>Flush\<close>: when the calls return without error, the concatenation of the slices
  the sink received is the concatenation of the input slices, however the input was split.
  With a capacity above zero the calls always return, and they return without error when
  the sink never fails.
\<close>

theorem BufferedWriter_round_trip:
  "(\<forall>bw. session cap sc ps = Some (None, bw) \<longrightarrow> concat (calls (writer bw)) = concat ps) \<and>
   (0 < cap \<longrightarrow> (\<exists>r. session cap sc ps = Some r)) \<and>
   (0 < cap \<longrightarrow> no_failure sc \<longrightarrow> (\<exists>bw. session cap sc ps = Some (None, bw)))"
proof (intro conjI allI impI)
  fix bw assume s: "session cap sc ps = Some (None, bw)"
  let ?b0 = "NewBufferedWriter (new_sink sc) cap"
  from s obtain bw1 where w: "writes ?b0 ps = Some (None, bw1)" and f: "Flush bw1 = (None, bw)"
    by (auto simp: session_def split: option.splits prod.splits)
  from writes_post[OF w] obtain new where new: "calls (writer bw1) = new"
     "concat new @ pending bw1 = concat ps"
    by (auto simp: ws_post_def New_simps new_sink_simps)
  from Flush_post(3)[OF f] new show "concat (calls (writer bw)) = concat ps"
    by (auto simp: pending_def split: if_splits)
next
  assume "0 < cap"
  then obtain r where "writes (NewBufferedWriter (new_sink sc) cap) ps = Some r"
    using writes_returns[of "NewBufferedWriter (new_sink sc) cap" ps] by (auto simp: New_simps)
  then show "\<exists>r. session cap sc ps = Some r"
    by (cases r) (auto simp: session_def split: option.splits)
next
  assume "0 < cap" and nf: "no_failure sc"
  let ?b0 = "NewBufferedWriter (new_sink sc) cap"
  from \<open>0 < cap\<close> obtain e bw1 where w: "writes ?b0 ps = Some (e, bw1)"
    using writes_returns[of ?b0 ps] by (auto simp: New_simps)
  from writes_post[OF w] nf have e: "e = None"
     and s1: "set (script (writer bw1)) \<subseteq> set sc"
    by (auto simp: ws_post_def New_simps new_sink_simps)
  obtain e' bw2 where f: "Flush bw1 = (e', bw2)" by (cases "Flush bw1")
  from Flush_post(5)[OF f] no_failure_mono[OF s1 nf] have "e' = None" by blast
  with w e f show "\<exists>bw. session cap sc ps = Some (None, bw)"
    by (simp add: session_def)
qed

theorem BufferedWriter_round_trip_witness:
  "\<exists>bw. session 2 [Ok, Short 0] [[1, 2, 3], [], [4]] = Some (None, bw) \<and> concat (calls (writer bw)) = [1, 2, 3, 4]"
  using BufferedWriter_round_trip [of 2 "[Ok, Short 0]" "[[1, 2, 3], [], [4]]"]
  by (auto simp: no_failure_def)


text \<open>
  Claim C4. After any sequence of \<open>Write\<close> calls on a fresh buffer of capacity \<open>cap\<close>, every
  slice the sink has received has exactly \<open>cap\<close> bytes. The \<open>Flush\<close> that follows adds one
  slice, of at most \<open>cap\<close> bytes, when the buffer holds bytes, and \<open>Flush\<close> on an empty buffer
  changes nothing and calls the sink not at all. The buffer of \<open>main\<close> has 10 MiB.
\<close>

theorem BufferedWriter_block_sizes:
  "(0 < cap \<longrightarrow> (\<exists>r. writes (NewBufferedWriter (new_sink sc) cap) ps = Some r)) \<and>
   (\<forall>e bw. writes (NewBufferedWriter (new_sink sc) cap) ps = Some (e, bw) \<longrightarrow>
      (\<forall>c \<in> set (calls (writer bw)). length c = cap) \<and>
      (\<forall>e' bw'. Flush bw = (e', bw') \<longrightarrow>
         (offset bw = 0 \<longrightarrow> e' = None \<and> bw' = bw) \<and>
         (offset bw \<noteq> 0 \<longrightarrow>
            (\<exists>c. calls (writer bw') = calls (writer bw) @ [c] \<and> 0 < length c \<and> length c \<le> cap)))) \<and>
   (\<forall>b. offset b = 0 \<longrightarrow> Flush b = (None, b)) \<and>
   length (buffer (bufferedFile file)) = 10485760"
proof (intro conjI allI impI)
  assume "0 < cap"
  then show "\<exists>r. writes (NewBufferedWriter (new_sink sc) cap) ps = Some r"
    using writes_returns[of "NewBufferedWriter (new_sink sc) cap" ps] by (simp add: New_simps)
next
  fix e bw assume w: "writes (NewBufferedWriter (new_sink sc) cap) ps = Some (e, bw)"
  from writes_post[OF w] show "\<forall>c \<in> set (calls (writer bw)). length c = cap"
    by (auto simp: ws_post_def New_simps new_sink_simps)
next
  fix e bw e' bw'
  assume "Flush bw = (e', bw')" "offset bw = 0"
  then show "e' = None" "bw' = bw" by (simp_all add: Flush_def)
next
  fix e bw e' bw'
  assume w: "writes (NewBufferedWriter (new_sink sc) cap) ps = Some (e, bw)"
    and f: "Flush bw = (e', bw')" and nz: "offset bw \<noteq> 0"
  from writes_post[OF w] have "offset bw \<le> cap" "length (buffer bw) = cap"
    by (auto simp: ws_post_def New_simps)
  with Flush_post(3)[OF f] nz
  show "\<exists>c. calls (writer bw') = calls (writer bw) @ [c] \<and> 0 < length c \<and> length c \<le> cap"
    by (auto simp: pending_def)
next
  fix b :: BufferedWriter assume "offset b = 0"
  then show "Flush b = (None, b)" by (simp add: Flush_def)
next
  show "length (buffer (bufferedFile file)) = 10485760"
    by (simp add: bufferedFile_def New_simps)
qed

theorem BufferedWriter_block_sizes_witness:
  "\<exists>e bw c. writes (NewBufferedWriter (new_sink []) 2) [[1, 2, 3], [4, 5]] = Some (e, bw) \<and>
      calls (writer bw) = [[1, 2], [3, 4]] \<and> offset bw = 1 \<and>
      calls (writer (snd (Flush bw))) = [[1, 2], [3, 4], c] \<and> 0 < length c \<and> length c \<le> 2"
proof -
  define B where "B = \<lparr>writer = \<lparr>calls = [[1, 2], [3, 4]], replies = [(2, False), (2, False)], script = []\<rparr>,
                buffer = [5, 4 :: byte], offset = 1\<rparr>"
  have w: "writes (NewBufferedWriter (new_sink []) 2) [[1, 2, 3], [4, 5]] = Some (None, B)"
    unfolding B_def by code_simp
  have sel: "calls (writer B) = [[1, 2], [3, 4]]" "offset B = 1"
    by (simp_all add: B_def)
  have "Flush B = (fst (Flush B), snd (Flush B))" by simp
  with BufferedWriter_block_sizes [of 2 "[]" "[[1, 2, 3], [4, 5]]"] w sel
  have "\<exists>c. calls (writer (snd (Flush B))) = [[1, 2], [3, 4]] @ [c] \<and> 0 < length c \<and> length c \<le> 2"
    by (metis zero_neq_one)
  with w sel show ?thesis by auto
qed

subsection \<open>The digest stage\<close>

lemma sink_write_acked:
  assumes "length (calls w) = length (replies w)" "sink_write w p = ((n, failed), w')"
  shows "acked w' = acked w @ (if failed then [] else take n p)"
    and "length (calls w') = length (replies w')"
  using assms by (auto simp: sink_write_def acked_def Let_def)

lemma digest_inv_start: "digest_inv H (start sc ps)"
  by (simp add: digest_inv_def start_def NewAsyncSHA256Writer_def new_sink_def in_flight_def
        acked_def early_def writing_def)

lemma fire_CallWrite_inv:
  assumes "digest_inv H s" "fire H CallWrite s = Some s'"
  shows "digest_inv H s'"
proof -
  from assms(2) obtain p ps where at: "at s = Calling" and td: "todo s = p # ps"
    by (auto split: pc.splits list.splits)
  obtain n failed w' where sw: "sink_write (sha_writer (asw s)) p = ((n, failed), w')"
    by (metis surj_pair)
  from assms(1) have len: "length (calls (sha_writer (asw s))) = length (replies (sha_writer (asw s)))"
    by (simp add: digest_inv_def)
  note ack = sink_write_acked[OF len sw]
  from assms(1) at have e: "None \<notin> set (dataCh (asw s))" "resultCh (asw s) = []"
      "in_flight s = acked (sha_writer (asw s))" "\<not> closed (asw s)"
    by (simp_all add: digest_inv_def early_def writing_def)
  show ?thesis
  proof (cases "failed")
    case True
    with assms(2) at td sw have s': "s' = s\<lparr>asw := (asw s)\<lparr>sha_writer := w'\<rparr>, todo := ps\<rparr>" by simp
    with True ack e at assms(1) show ?thesis
      by (simp add: digest_inv_def in_flight_def early_def writing_def)
  next
    case False
    show ?thesis
    proof (cases "n > 0")
      case True
      with False assms(2) at td sw e(4)
      have s': "s' = s\<lparr>asw := (asw s)\<lparr>sha_writer := w'\<rparr>, todo := ps, at := Sending (take n p)\<rparr>" by simp
      with False ack e at assms(1) show ?thesis
        by (simp add: digest_inv_def in_flight_def early_def writing_def)
    next
      case nohash: False
      with False assms(2) at td sw have s': "s' = s\<lparr>asw := (asw s)\<lparr>sha_writer := w'\<rparr>, todo := ps\<rparr>" by auto
      with nohash False ack e at assms(1) show ?thesis
        by (simp add: digest_inv_def in_flight_def early_def writing_def)
    qed
  qed
qed

lemma fire_SendData_inv:
  assumes "digest_inv H s" "fire H SendData s = Some s'"
  shows "digest_inv H s'"
proof -
  from assms(2) obtain d where at: "at s = Sending d"
     and s': "s' = s\<lparr>asw := (asw s)\<lparr>dataCh := dataCh (asw s) @ [Some d]\<rparr>, at := Calling\<rparr>"
    by (auto split: pc.splits if_splits)
  with assms(1) show ?thesis
    by (simp add: digest_inv_def in_flight_def early_def writing_def butlast_append)
qed

lemma fire_CallSum_inv:
  assumes "digest_inv H s" "fire H CallSum s = Some s'"
  shows "digest_inv H s'"
proof -
  from assms(2) have at: "at s = Calling"
     and s': "s' = s\<lparr>asw := (asw s)\<lparr>closed := True\<rparr>, at := SendingNil\<rparr> \<or> s' = s\<lparr>at := Selecting\<rparr>"
    by (auto split: pc.splits if_splits list.splits)
  from assms(1) at have "None \<notin> set (butlast (dataCh (asw s)))"
    by (auto simp: digest_inv_def early_def dest: in_set_butlastD)
  with s' at assms(1) show ?thesis
    by (auto simp: digest_inv_def in_flight_def early_def writing_def)
qed

lemma fire_SendNil_inv:
  assumes "digest_inv H s" "fire H SendNil s = Some s'"
  shows "digest_inv H s'"
proof -
  from assms(2) have at: "at s = SendingNil"
     and s': "s' = s\<lparr>asw := (asw s)\<lparr>dataCh := dataCh (asw s) @ [None]\<rparr>, at := Selecting\<rparr>"
    by (auto split: pc.splits if_splits)
  with assms(1) show ?thesis
    by (simp add: digest_inv_def in_flight_def early_def writing_def butlast_append)
qed

lemma fire_RecvResult_inv:
  assumes "digest_inv H s" "fire H RecvResult s = Some s'"
  shows "digest_inv H s'"
proof -
  from assms(2) obtain r rs where at: "at s = Selecting" and rc: "resultCh (asw s) = r # rs"
     and s': "s' = s\<lparr>asw := (asw s)\<lparr>resultCh := rs\<rparr>, at := Returned r\<rparr>"
    by (auto split: pc.splits if_splits list.splits)
  with assms(1) show ?thesis
    by (simp add: digest_inv_def in_flight_def early_def writing_def)
qed

lemma fire_Timeout_inv:
  assumes "digest_inv H s" "fire H Timeout s = Some s'"
  shows "digest_inv H s'"
proof -
  from assms(2) have at: "at s = Selecting"
     and s': "s' = s\<lparr>asw := (asw s)\<lparr>doneCh := True\<rparr>, at := Waiting\<rparr>"
    by (auto split: pc.splits if_splits)
  with assms(1) show ?thesis
    by (simp add: digest_inv_def in_flight_def early_def writing_def)
qed

lemma fire_WaitReturn_inv:
  assumes "digest_inv H s" "fire H WaitReturn s = Some s'"
  shows "digest_inv H s'"
proof -
  from assms(2) have at: "at s = Waiting" and s': "s' = s\<lparr>at := Returned []\<rparr>"
    by (auto split: pc.splits if_splits)
  with assms(1) show ?thesis
    by (simp add: digest_inv_def in_flight_def early_def writing_def)
qed

lemma fire_WorkerDone_inv:
  assumes "digest_inv H s" "fire H WorkerDone s = Some s'"
  shows "digest_inv H s'"
proof -
  from assms(2) have s': "s' = s\<lparr>asw := (asw s)\<lparr>wg := wg (asw s) - 1\<rparr>\<rparr>"
    by (auto split: if_splits)
  with assms(1) show ?thesis
    by (simp add: digest_inv_def in_flight_def early_def writing_def)
qed

lemma fire_WorkerRecv_inv:
  assumes "digest_inv H s" "fire H WorkerRecv s = Some s'"
  shows "digest_inv H s'"
proof (cases "dataCh (asw s)")
  case Nil
  with assms(2) show ?thesis by (simp split: if_splits)
next
  case (Cons x q)
  show ?thesis
  proof (cases x)
    case (Some d)
    with Cons assms(2) have s': "s' = s\<lparr>asw := (asw s)\<lparr>dataCh := q, hasher := hasher (asw s) @ d\<rparr>\<rparr>"
      by (simp split: if_splits)
    from assms(1) Cons have "None \<notin> set (butlast q)"
      by (auto simp: digest_inv_def split: if_splits)
    with s' Cons Some assms(1) show ?thesis
      by (simp add: digest_inv_def in_flight_def early_def writing_def)
  next
    case None
    with Cons assms(2)
    have s': "s' = s\<lparr>asw := (asw s)\<lparr>dataCh := q,
                resultCh := resultCh (asw s) @ [EncodeToString (H (hasher (asw s)))],
                wg := wg (asw s) - 1\<rparr>\<rparr>"
      by (simp split: if_splits)
    from assms(1) Cons None have q: "q = []"
      by (auto simp: digest_inv_def split: if_splits)
    from assms(1) Cons None have late: "\<not> early (at s)"
      by (auto simp: digest_inv_def)
    then have ns: "(case at s of Sending d \<Rightarrow> d | _ \<Rightarrow> []) = []"
      by (auto simp: early_def split: pc.splits)
    from assms(1) Cons None q ns have h: "hasher (asw s) = acked (sha_writer (asw s))"
      by (simp add: digest_inv_def in_flight_def)
    from s' q h late assms(1) show ?thesis
      by (auto simp: digest_inv_def in_flight_def early_def writing_def split: pc.splits)
  qed
qed

lemma fire_inv:
  assumes "digest_inv H s" "fire H a s = Some s'"
  shows "digest_inv H s'"
  using assms
  by (cases a) (blast intro: fire_CallWrite_inv fire_SendData_inv fire_CallSum_inv fire_SendNil_inv
      fire_RecvResult_inv fire_Timeout_inv fire_WaitReturn_inv fire_WorkerRecv_inv fire_WorkerDone_inv)+

lemma exec_inv:
  assumes "exec H sched s = Some s'" "digest_inv H s"
  shows "digest_inv H s'"
  using assms
  by (induction sched arbitrary: s) (auto split: option.splits dest: fire_inv)

lemma fire_CallWrite_D:
  assumes "fire H CallWrite s = Some s'"
  obtains p ps n failed w' where "at s = Calling" "todo s = p # ps"
    "sink_write (sha_writer (asw s)) p = ((n, failed), w')"
    "asw s' = (asw s)\<lparr>sha_writer := w'\<rparr>" "todo s' = ps"
    "at s' = (if \<not> failed \<and> \<not> closed (asw s) \<and> n > 0 then Sending (take n p) else Calling)"
proof -
  from assms obtain p ps where at: "at s = Calling" and td: "todo s = p # ps"
    by (auto split: pc.splits list.splits)
  obtain n failed w' where sw: "sink_write (sha_writer (asw s)) p = ((n, failed), w')"
    by (metis surj_pair)
  from assms at td sw
  have "asw s' = (asw s)\<lparr>sha_writer := w'\<rparr>" "todo s' = ps"
    "at s' = (if \<not> failed \<and> \<not> closed (asw s) \<and> n > 0 then Sending (take n p) else Calling)"
    by (auto split: if_splits)
  with at td sw show thesis by (rule that)
qed

lemma fire_SendData_D:
  assumes "fire H SendData s = Some s'"
  obtains d where "at s = Sending d" "length (dataCh (asw s)) < 10"
    "s' = s\<lparr>asw := (asw s)\<lparr>dataCh := dataCh (asw s) @ [Some d]\<rparr>, at := Calling\<rparr>"
  using assms by (auto split: pc.splits if_splits)

lemma fire_CallSum_D:
  assumes "fire H CallSum s = Some s'"
  obtains "at s = Calling" "todo s = []" "\<not> closed (asw s)"
      "s' = s\<lparr>asw := (asw s)\<lparr>closed := True\<rparr>, at := SendingNil\<rparr>"
  | "at s = Calling" "todo s = []" "closed (asw s)" "s' = s\<lparr>at := Selecting\<rparr>"
  using assms by (auto split: pc.splits if_splits list.splits)

lemma fire_SendNil_D:
  assumes "fire H SendNil s = Some s'"
  obtains "at s = SendingNil" "length (dataCh (asw s)) < 10"
    "s' = s\<lparr>asw := (asw s)\<lparr>dataCh := dataCh (asw s) @ [None]\<rparr>, at := Selecting\<rparr>"
  using assms by (auto split: pc.splits if_splits)

lemma fire_RecvResult_D:
  assumes "fire H RecvResult s = Some s'"
  obtains r rs where "at s = Selecting" "resultCh (asw s) = r # rs"
    "s' = s\<lparr>asw := (asw s)\<lparr>resultCh := rs\<rparr>, at := Returned r\<rparr>"
  using assms by (auto split: pc.splits list.splits)

lemma fire_Timeout_D:
  assumes "fire H Timeout s = Some s'"
  obtains "at s = Selecting" "s' = s\<lparr>asw := (asw s)\<lparr>doneCh := True\<rparr>, at := Waiting\<rparr>"
  using assms by (auto split: pc.splits)

lemma fire_WaitReturn_D:
  assumes "fire H WaitReturn s = Some s'"
  obtains "at s = Waiting" "wg (asw s) = 0" "s' = s\<lparr>at := Returned []\<rparr>"
  using assms by (auto split: pc.splits if_splits)

lemma fire_WorkerRecv_D:
  assumes "fire H WorkerRecv s = Some s'"
  obtains d q where "wg (asw s) \<noteq> 0" "dataCh (asw s) = Some d # q"
      "s' = s\<lparr>asw := (asw s)\<lparr>dataCh := q, hasher := hasher (asw s) @ d\<rparr>\<rparr>"
  | q where "wg (asw s) \<noteq> 0" "dataCh (asw s) = None # q"
      "s' = s\<lparr>asw := (asw s)\<lparr>dataCh := q,
                 resultCh := resultCh (asw s) @ [EncodeToString (H (hasher (asw s)))],
                 wg := wg (asw s) - 1\<rparr>\<rparr>"
  using assms by (auto split: if_splits list.splits option.splits)

lemma fire_WorkerDone_D:
  assumes "fire H WorkerDone s = Some s'"
  obtains "wg (asw s) \<noteq> 0" "doneCh (asw s)" "s' = s\<lparr>asw := (asw s)\<lparr>wg := wg (asw s) - 1\<rparr>\<rparr>"
  using assms by (auto split: if_splits)


lemma caller_inv_start: "caller_inv sc ps (start sc ps)"
  by (simp add: caller_inv_def start_def NewAsyncSHA256Writer_def new_sink_def writing_def)

lemma sink_write_all_ok:
  assumes "all_ok (script w)" "sink_write w p = (r, w')"
  shows "r = (length p, False)" "all_ok (script w')"
  using assms by (auto simp: sink_write_def Let_def answer_def all_ok_def split: list.splits dest: list.set_sel(2))

lemma sink_write_calls:
  assumes "sink_write w p = (r, w')"
  shows "calls w' = calls w @ [p]" "replies w' = replies w @ [r]"
  using assms by (auto simp: sink_write_def Let_def)

lemma fire_caller_inv:
  assumes "caller_inv sc ps s" "fire H a s = Some s'"
  shows "caller_inv sc ps s'"
proof (cases a)
  case CallWrite
  from assms(2)[unfolded CallWrite] show ?thesis
  proof (elim fire_CallWrite_D)
    fix p rest n failed w'
    assume at: "at s = Calling" and td: "todo s = p # rest"
      and sw: "sink_write (sha_writer (asw s)) p = ((n, failed), w')"
      and s': "asw s' = (asw s)\<lparr>sha_writer := w'\<rparr>" "todo s' = rest"
        "at s' = (if \<not> failed \<and> \<not> closed (asw s) \<and> n > 0 then Sending (take n p) else Calling)"
    have w: "writing (at s')" using s'(3) by (simp add: writing_def)
    have ok: "all_ok sc \<longrightarrow> all_ok (script w') \<and> (n, failed) = (length p, False)"
      using assms(1) sink_write_all_ok[OF _ sw] by (auto simp: caller_inv_def)
    from assms(1) td sink_write_calls[OF sw] s' w ok show ?thesis
      by (auto simp: caller_inv_def)
  qed
next
  case SendData
  from assms(2)[unfolded SendData] assms(1) show ?thesis
    by (elim fire_SendData_D) (auto simp: caller_inv_def writing_def)
next
  case CallSum
  from assms(2)[unfolded CallSum] assms(1) show ?thesis
    by (elim fire_CallSum_D) (auto simp: caller_inv_def writing_def)
next
  case SendNil
  from assms(2)[unfolded SendNil] assms(1) show ?thesis
    by (elim fire_SendNil_D) (auto simp: caller_inv_def writing_def)
next
  case RecvResult
  from assms(2)[unfolded RecvResult] assms(1) show ?thesis
    by (elim fire_RecvResult_D) (auto simp: caller_inv_def writing_def)
next
  case Timeout
  from assms(2)[unfolded Timeout] assms(1) show ?thesis
    by (elim fire_Timeout_D) (auto simp: caller_inv_def writing_def)
next
  case WaitReturn
  from assms(2)[unfolded WaitReturn] assms(1) show ?thesis
    by (elim fire_WaitReturn_D) (auto simp: caller_inv_def writing_def)
next
  case WorkerRecv
  from assms(2)[unfolded WorkerRecv] assms(1) show ?thesis
    by (elim fire_WorkerRecv_D) (auto simp: caller_inv_def writing_def)
next
  case WorkerDone
  from assms(2)[unfolded WorkerDone] assms(1) show ?thesis
    by (elim fire_WorkerDone_D) (auto simp: caller_inv_def writing_def)
qed

lemma exec_caller_inv:
  assumes "exec H sched s = Some s'" "caller_inv sc ps s"
  shows "caller_inv sc ps s'"
  using assms
  by (induction sched arbitrary: s) (auto split: option.splits dest: fire_caller_inv)

lemma acked_all_ok:
  assumes "replies w = map (\<lambda>p. (length p, False)) (calls w)"
  shows "acked w = concat (calls w)"
proof -
  have "map (\<lambda>(p, (n, failed)). if failed then [] else take n p) (zip xs (map (\<lambda>p. (length p, False)) xs)) = xs"
    for xs :: "byte list list"
    by (induction xs) auto
  with assms show ?thesis by (simp add: acked_def)
qed

lemma EncodeToString_empty: "EncodeToString bs = [] \<longleftrightarrow> bs = []"
  by (cases bs) (simp_all add: EncodeToString_def)

lemma timeout_inv_start: "timeout_inv (start sc ps)"
  by (simp add: timeout_inv_def start_def NewAsyncSHA256Writer_def)

lemma fire_timeout_inv:
  assumes "timeout_inv s" "fire H a s = Some s'" "\<forall>bs. H bs \<noteq> []"
  shows "timeout_inv s'"
proof (cases a)
  case CallWrite
  from assms(2)[unfolded CallWrite] assms(1) assms(3) show ?thesis
    by (elim fire_CallWrite_D) (simp add: timeout_inv_def)
next
  case SendData
  from assms(2)[unfolded SendData] assms(1) assms(3) show ?thesis
    by (elim fire_SendData_D) (simp add: timeout_inv_def)
next
  case CallSum
  from assms(2)[unfolded CallSum] assms(1) assms(3) show ?thesis
    by (elim fire_CallSum_D) (simp_all add: timeout_inv_def)
next
  case SendNil
  from assms(2)[unfolded SendNil] assms(1) assms(3) show ?thesis
    by (elim fire_SendNil_D) (simp add: timeout_inv_def)
next
  case RecvResult
  from assms(2)[unfolded RecvResult] assms(1) assms(3) show ?thesis
    by (elim fire_RecvResult_D) (simp add: timeout_inv_def)
next
  case Timeout
  from assms(2)[unfolded Timeout] assms(1) assms(3) show ?thesis
    by (elim fire_Timeout_D) (simp add: timeout_inv_def)
next
  case WaitReturn
  from assms(2)[unfolded WaitReturn] assms(1) assms(3) show ?thesis
    by (elim fire_WaitReturn_D) (simp add: timeout_inv_def)
next
  case WorkerRecv
  from assms(2)[unfolded WorkerRecv] assms(1) assms(3) show ?thesis
    by (elim fire_WorkerRecv_D) (simp_all add: timeout_inv_def EncodeToString_empty)
next
  case WorkerDone
  from assms(2)[unfolded WorkerDone] assms(1) assms(3) show ?thesis
    by (elim fire_WorkerDone_D) (simp add: timeout_inv_def)
qed

lemma exec_timeout_inv:
  assumes "exec H sched s = Some s'" "timeout_inv s" "\<forall>bs. H bs \<noteq> []"
  shows "timeout_inv s'"
  using assms
  by (induction sched arbitrary: s) (auto split: option.splits dest: fire_timeout_inv)

lemma fire_late:
  assumes "fire H a s = Some s'" "\<not> early (at s)"
  shows "sha_writer (asw s') = sha_writer (asw s)" "\<not> early (at s')"
    "at s = Waiting \<longrightarrow> at s' = Waiting \<or> at s' = Returned []"
    "\<forall>r. at s = Returned r \<longrightarrow> at s' = Returned r"
proof -
  have "sha_writer (asw s') = sha_writer (asw s) \<and> \<not> early (at s') \<and>
    (at s = Waiting \<longrightarrow> at s' = Waiting \<or> at s' = Returned []) \<and>
    (\<forall>r. at s = Returned r \<longrightarrow> at s' = Returned r)"
  proof (cases a)
    case CallWrite
    from assms(1)[unfolded CallWrite] assms(2) show ?thesis
      by (elim fire_CallWrite_D) (simp add: early_def)
  next
    case SendData
    from assms(1)[unfolded SendData] assms(2) show ?thesis
      by (elim fire_SendData_D) (simp add: early_def)
  next
    case CallSum
    from assms(1)[unfolded CallSum] assms(2) show ?thesis
      by (elim fire_CallSum_D) (simp_all add: early_def)
  next
    case SendNil
    from assms(1)[unfolded SendNil] assms(2) show ?thesis
      by (elim fire_SendNil_D) (simp add: early_def)
  next
    case RecvResult
    from assms(1)[unfolded RecvResult] assms(2) show ?thesis
      by (elim fire_RecvResult_D) (simp add: early_def)
  next
    case Timeout
    from assms(1)[unfolded Timeout] assms(2) show ?thesis
      by (elim fire_Timeout_D) (simp add: early_def)
  next
    case WaitReturn
    from assms(1)[unfolded WaitReturn] assms(2) show ?thesis
      by (elim fire_WaitReturn_D) (simp add: early_def)
  next
    case WorkerRecv
    from assms(1)[unfolded WorkerRecv] assms(2) show ?thesis
      by (elim fire_WorkerRecv_D) (simp_all add: early_def)
  next
    case WorkerDone
    from assms(1)[unfolded WorkerDone] assms(2) show ?thesis
      by (elim fire_WorkerDone_D) (simp add: early_def)
  qed
  then show "sha_writer (asw s') = sha_writer (asw s)" "\<not> early (at s')"
    "at s = Waiting \<longrightarrow> at s' = Waiting \<or> at s' = Returned []"
    "\<forall>r. at s = Returned r \<longrightarrow> at s' = Returned r"
    by blast+
qed

lemma exec_late:
  assumes "exec H sched s = Some s'" "\<not> early (at s)"
  shows "sha_writer (asw s') = sha_writer (asw s) \<and> \<not> early (at s') \<and>
     (at s = Waiting \<or> at s = Returned [] \<longrightarrow> at s' = Waiting \<or> at s' = Returned [])"
  using assms
proof (induction sched arbitrary: s)
  case Nil
  then show ?case by simp
next
  case (Cons a sched)
  from Cons.prems(1) obtain s1 where f: "fire H a s = Some s1" and e: "exec H sched s1 = Some s'"
    by (auto split: option.splits)
  note fl = fire_late[OF f Cons.prems(2)]
  from Cons.IH[OF e fl(2)] fl show ?case by auto
qed

text \<open>
  What the stage does compute. In every interleaving of the caller and the hash worker, for
  every sequence of \<open>Write\<close> calls and every behaviour of the sink: when \<open>Sum\<close> returns a
  non-empty string, that string is the hexadecimal encoding of the digest of \<open>p[:n]\<close> of every
  \<open>Write(p)\<close> answered \<open>(n, nil)\<close>, in call order. Every \<open>Write\<close> of the caller has reached the
  sink by then, and with a sink that accepts everything the string is the encoded digest of
  the concatenated input.
\<close>

lemma digest_of_acknowledged_bytes:
  assumes "exec H sched (start sc ps) = Some s" and "at s = Returned r" and "r \<noteq> []"
  shows "r = EncodeToString (H (acked (sha_writer (asw s)))) \<and>
         calls (sha_writer (asw s)) = ps \<and>
         (all_ok sc \<longrightarrow> r = EncodeToString (H (concat ps)))"
proof -
  from exec_inv[OF assms(1) digest_inv_start] assms(2,3)
  have r: "r = EncodeToString (H (acked (sha_writer (asw s))))"
    by (simp add: digest_inv_def)
  from exec_caller_inv[OF assms(1) caller_inv_start] assms(2)
  have c: "calls (sha_writer (asw s)) = ps"
    and ok: "all_ok sc \<longrightarrow> replies (sha_writer (asw s)) = map (\<lambda>p. (length p, False)) (calls (sha_writer (asw s)))"
    by (auto simp: caller_inv_def writing_def)
  from ok c r acked_all_ok have "all_ok sc \<longrightarrow> r = EncodeToString (H (concat ps))"
    by metis
  with r c show ?thesis by blast
qed

lemma digest_of_acknowledged_bytes_example:
  "\<exists>s. exec (\<lambda>bs. [sum_list bs])
          [CallWrite, SendData, WorkerRecv, CallWrite, SendData, CallSum, SendNil, WorkerRecv,
           WorkerRecv, RecvResult] (start [] [[1, 2], [255]]) = Some s \<and>
        at s = Returned ''02'' \<and> acked (sha_writer (asw s)) = [1, 2, 255] \<and>
        ''02'' = EncodeToString [sum_list [1, 2, 255 :: byte]]"
proof -
  define S :: digest_run where "S = \<lparr>asw = \<lparr>sha_writer = \<lparr>calls = [[1, 2], [255]],
        replies = [(2, False), (1, False)], script = []\<rparr>, hasher = [1, 2, 255], dataCh = [],
        doneCh = False, resultCh = [], wg = 0, closed = True\<rparr>, todo = [], at = Returned ''02''\<rparr>"
  have e: "exec (\<lambda>bs. [sum_list bs])
          [CallWrite, SendData, WorkerRecv, CallWrite, SendData, CallSum, SendNil, WorkerRecv,
           WorkerRecv, RecvResult] (start [] [[1, 2], [255]]) = Some S"
    unfolding S_def by code_simp
  have a: "at S = Returned ''02''" by (simp add: S_def)
  have k: "acked (sha_writer (asw S)) = [1, 2, 255]" by (simp add: S_def acked_def)
  from digest_of_acknowledged_bytes[OF e a] k
  have "''02'' = EncodeToString [sum_list [1, 2, 255 :: byte]]" by simp
  with e a k show ?thesis by blast
qed

text \<open>
  As long as no \<open>Write\<close> was answered with an error, these are all the bytes the sink took.
\<close>

lemma acked_written:
  assumes "\<forall>r \<in> set (replies w). \<not> snd r"
  shows "acked w = written w"
proof -
  have n: "\<not> failed" if "(p, n, failed) \<in> set (zip (calls w) (replies w))" for p n failed
    using assms set_zip_rightD[OF that] by auto
  have "map (\<lambda>(p, (n, failed)). if failed then [] else take n p) (zip (calls w) (replies w)) =
        map (\<lambda>(p, (n, failed)). take n p) (zip (calls w) (replies w))"
    by (intro map_cong refl) (auto dest: n)
  then show ?thesis unfolding acked_def written_def by (rule arg_cong)
qed

text \<open>
  Claim C2: a non-empty result of \<open>Sum\<close> is the encoded digest of exactly the bytes written to
  the sink. The code misses it when the sink answers a \<open>Write\<close> with \<open>(n, err)\<close>, \<open>n > 0\<close> and
  \<open>err != nil\<close>: \<open>Write\<close> returns at \<open>if err != nil\<close>, before it hands \<open>p[:n]\<close> to the hasher.
  Below, the sink takes the first byte of \<open>Write([1, 2])\<close> and reports an error. \<open>Sum\<close> then
  returns the encoded digest of the empty sequence (for SHA-256 a string of 64 digits),
  while the sink holds the byte 1.
\<close>

theorem digest_misses_partial_write:
  "exec H [CallWrite, CallSum, SendNil, WorkerRecv, RecvResult] (start [Err 1] [[1, 2]]) =
     Some \<lparr>asw = \<lparr>sha_writer = \<lparr>calls = [[1, 2]], replies = [(1, True)], script = []\<rparr>,
                  hasher = [], dataCh = [], doneCh = False, resultCh = [], wg = 0,
                  closed = True\<rparr>,
           todo = [], at = Returned (EncodeToString (H []))\<rparr> \<and>
   written \<lparr>calls = [[1, 2]], replies = [(1, True)], script = []\<rparr> = [1] \<and>
   acked \<lparr>calls = [[1, 2]], replies = [(1, True)], script = []\<rparr> = []"
  by (simp add: start_def NewAsyncSHA256Writer_def new_sink_def sink_write_def answer_def
      written_def acked_def Let_def)

subsection \<open>The timeout of the digest stage\<close>

lemma Waiting_can_return:
  assumes "at s = Waiting" "doneCh (asw s)" "wg (asw s) \<le> 1"
  shows "\<exists>tail s2. exec H tail s = Some s2 \<and> at s2 = Returned [] \<and> wg (asw s2) = 0"
proof (cases "wg (asw s) = 0")
  case True
  with assms have "exec H [WaitReturn] s = Some (s\<lparr>at := Returned []\<rparr>)" by simp
  with True show ?thesis by (intro exI[of _ "[WaitReturn]"] exI[of _ "s\<lparr>at := Returned []\<rparr>"]) simp
next
  case False
  with assms have w: "wg (asw s) = 1" by simp
  let ?s1 = "s\<lparr>asw := (asw s)\<lparr>wg := wg (asw s) - 1\<rparr>\<rparr>"
  from assms w have "exec H [WorkerDone, WaitReturn] s = Some (?s1\<lparr>at := Returned []\<rparr>)" by simp
  with w show ?thesis
    by (intro exI[of _ "[WorkerDone, WaitReturn]"] exI[of _ "?s1\<lparr>at := Returned []\<rparr>"]) simp
qed

lemma exec_append:
  "exec H (xs @ ys) s = (case exec H xs s of None \<Rightarrow> None | Some s1 \<Rightarrow> exec H ys s1)"
  by (induction xs arbitrary: s) (auto split: option.splits)

lemma fire_after_timeout:
  assumes "fire H a s = Some s'" "at s = Waiting \<or> (\<exists>r. at s = Returned r)"
  shows "steps_left s' < steps_left s \<and> (at s' = Waiting \<or> (\<exists>r. at s' = Returned r))"
proof (cases a)
  case CallWrite
  from assms(1)[unfolded CallWrite] assms(2) show ?thesis
    by (elim fire_CallWrite_D) auto
next
  case SendData
  from assms(1)[unfolded SendData] assms(2) show ?thesis
    by (elim fire_SendData_D) auto
next
  case CallSum
  from assms(1)[unfolded CallSum] assms(2) show ?thesis
    by (elim fire_CallSum_D) auto
next
  case SendNil
  from assms(1)[unfolded SendNil] assms(2) show ?thesis
    by (elim fire_SendNil_D) auto
next
  case RecvResult
  from assms(1)[unfolded RecvResult] assms(2) show ?thesis
    by (elim fire_RecvResult_D) auto
next
  case Timeout
  from assms(1)[unfolded Timeout] assms(2) show ?thesis
    by (elim fire_Timeout_D) auto
next
  case WaitReturn
  from assms(1)[unfolded WaitReturn] assms(2) show ?thesis
    by (elim fire_WaitReturn_D) (auto simp: steps_left_def)
next
  case WorkerRecv
  from assms(1)[unfolded WorkerRecv] assms(2) show ?thesis
    by (elim fire_WorkerRecv_D) (auto simp: steps_left_def)
next
  case WorkerDone
  from assms(1)[unfolded WorkerDone] assms(2) show ?thesis
    by (elim fire_WorkerDone_D) (auto simp: steps_left_def)
qed

lemma exec_after_timeout:
  assumes "exec H tail s = Some s'" "at s = Waiting \<or> (\<exists>r. at s = Returned r)"
  shows "length tail + steps_left s' \<le> steps_left s"
  using assms
proof (induction tail arbitrary: s)
  case Nil
  then show ?case by simp
next
  case (Cons a tail)
  from Cons.prems(1) obtain s1 where f: "fire H a s = Some s1" and e: "exec H tail s1 = Some s'"
    by (auto split: option.splits)
  from fire_after_timeout[OF f Cons.prems(2)] Cons.IH[OF e] show ?case by auto
qed

lemma Waiting_not_stuck:
  assumes "at s = Waiting" "doneCh (asw s)"
  shows "\<exists>a s'. fire H a s = Some s'"
proof (cases "wg (asw s) = 0")
  case True
  with assms have "fire H WaitReturn s = Some (s\<lparr>at := Returned []\<rparr>)" by simp
  then show ?thesis by blast
next
  case False
  with assms have "fire H WorkerDone s = Some (s\<lparr>asw := (asw s)\<lparr>wg := wg (asw s) - 1\<rparr>\<rparr>)" by simp
  then show ?thesis by blast
qed

text \<open>
  Claim C6. With a digest function that never yields the empty digest (SHA-256 yields 32
  bytes), in every execution: at the \<open>select\<close> of \<open>Sum\<close> the timeout branch can be taken, and it
  closes \<open>doneCh\<close>; from there the worker can end and \<open>Sum\<close> then returns the empty string,
  nothing else can be returned, some action is possible until \<open>Sum\<close> has returned, and at most
  \<open>len(dataCh) + 2\<close> actions happen; \<open>Sum\<close> returns the empty string only after \<open>doneCh\<close> was closed
  and the worker has ended; from the \<open>select\<close> on nothing is written to the sink, so the
  finalized container stays as it is; and \<open>main\<close>, given the empty string, logs the warning,
  writes no sidecar file and has no fatal exit on this path.
\<close>

theorem digest_timeout_is_not_fatal:
  assumes "exec H sched (start sc ps) = Some s" and "\<forall>bs. H bs \<noteq> []"
  shows "(at s = Selecting \<longrightarrow>
            (\<exists>s1. fire H Timeout s = Some s1 \<and> at s1 = Waiting \<and> doneCh (asw s1))) \<and>
         (at s = Waiting \<longrightarrow> doneCh (asw s) \<and>
            (\<exists>tail s2. exec H tail s = Some s2 \<and> at s2 = Returned [] \<and> wg (asw s2) = 0)) \<and>
         (at s = Returned [] \<longrightarrow> doneCh (asw s) \<and> wg (asw s) = 0) \<and>
         (\<forall>tail s'. at s = Waiting \<longrightarrow> exec H tail s = Some s' \<longrightarrow>
            length tail \<le> length (dataCh (asw s)) + 2 \<and>
            (at s' = Waiting \<longrightarrow> (\<exists>a s''. fire H a s' = Some s''))) \<and>
         (\<forall>tail s'. (at s = Selecting \<or> at s = Waiting) \<longrightarrow> exec H tail s = Some s' \<longrightarrow>
            sha_writer (asw s') = sha_writer (asw s) \<and>
            (at s = Waiting \<longrightarrow> (\<forall>r. at s' = Returned r \<longrightarrow> r = []))) \<and>
         report_digest base_of False [] destFile wfail = ([WarnDigestUnavailable], None)"
proof -
  note ti = exec_timeout_inv[OF assms(1) timeout_inv_start assms(2)]
  have 1: "at s = Selecting \<longrightarrow>
            (\<exists>s1. fire H Timeout s = Some s1 \<and> at s1 = Waiting \<and> doneCh (asw s1))"
    by simp
  have 2: "at s = Waiting \<longrightarrow> doneCh (asw s) \<and>
            (\<exists>tail s2. exec H tail s = Some s2 \<and> at s2 = Returned [] \<and> wg (asw s2) = 0)"
    using ti Waiting_can_return[of s H] by (simp add: timeout_inv_def)
  have 3: "at s = Returned [] \<longrightarrow> doneCh (asw s) \<and> wg (asw s) = 0"
    using ti by (simp add: timeout_inv_def)
  have 4: "\<forall>tail s'. (at s = Selecting \<or> at s = Waiting) \<longrightarrow> exec H tail s = Some s' \<longrightarrow>
            sha_writer (asw s') = sha_writer (asw s) \<and>
            (at s = Waiting \<longrightarrow> (\<forall>r. at s' = Returned r \<longrightarrow> r = []))"
  proof (intro allI impI)
    fix tail s'
    assume a: "at s = Selecting \<or> at s = Waiting" and e: "exec H tail s = Some s'"
    from a have "\<not> early (at s)" by (auto simp: early_def)
    from exec_late[OF e this]
    show "sha_writer (asw s') = sha_writer (asw s) \<and>
            (at s = Waiting \<longrightarrow> (\<forall>r. at s' = Returned r \<longrightarrow> r = []))"
      by auto
  qed
  have 5: "report_digest base_of False [] destFile wfail = ([WarnDigestUnavailable], None)"
    by (simp add: report_digest_def)
  have 6: "\<forall>tail s'. at s = Waiting \<longrightarrow> exec H tail s = Some s' \<longrightarrow>
            length tail \<le> length (dataCh (asw s)) + 2 \<and>
            (at s' = Waiting \<longrightarrow> (\<exists>a s''. fire H a s' = Some s''))"
  proof (intro allI impI)
    fix tail s'
    assume a: "at s = Waiting" and e: "exec H tail s = Some s'"
    from exec_after_timeout[OF e] a have "length tail \<le> steps_left s" by simp
    with ti a have b: "length tail \<le> length (dataCh (asw s)) + 2"
      by (simp add: steps_left_def timeout_inv_def)
    have "exec H (sched @ tail) (start sc ps) = Some s'"
      using assms(1) e by (simp add: exec_append)
    from exec_timeout_inv[OF this timeout_inv_start assms(2)]
    have "at s' = Waiting \<longrightarrow> (\<exists>a s''. fire H a s' = Some s'')"
      using Waiting_not_stuck[of s' H] by (simp add: timeout_inv_def)
    with b show "length tail \<le> length (dataCh (asw s)) + 2 \<and>
            (at s' = Waiting \<longrightarrow> (\<exists>a s''. fire H a s' = Some s''))" by simp
  qed
  from 1 2 3 4 5 6 show ?thesis by blast
qed

theorem digest_timeout_is_not_fatal_witness:
  "\<exists>s s2. exec (\<lambda>bs. [sum_list bs, 1]) [CallWrite, SendData, CallSum, SendNil, Timeout] (start [] [[7]]) = Some s \<and>
     at s = Waiting \<and> doneCh (asw s) \<and>
     exec (\<lambda>bs. [sum_list bs, 1]) [WorkerDone, WaitReturn] s = Some s2 \<and> at s2 = Returned [] \<and>
     sha_writer (asw s2) = sha_writer (asw s) \<and> calls (sha_writer (asw s)) = [[7]]"
proof -
  define S :: digest_run where "S = \<lparr>asw = \<lparr>sha_writer = \<lparr>calls = [[7]],
        replies = [(1, False)], script = []\<rparr>, hasher = [], dataCh = [Some [7], None],
        doneCh = True, resultCh = [], wg = 1, closed = True\<rparr>, todo = [], at = Waiting\<rparr>"
  define S2 :: digest_run where "S2 = \<lparr>asw = \<lparr>sha_writer = \<lparr>calls = [[7]],
        replies = [(1, False)], script = []\<rparr>, hasher = [], dataCh = [Some [7], None],
        doneCh = True, resultCh = [], wg = 0, closed = True\<rparr>, todo = [], at = Returned []\<rparr>"
  have e: "exec (\<lambda>bs. [sum_list bs, 1]) [CallWrite, SendData, CallSum, SendNil, Timeout] (start [] [[7]]) = Some S"
    unfolding S_def by code_simp
  have e2: "exec (\<lambda>bs. [sum_list bs, 1]) [WorkerDone, WaitReturn] S = Some S2"
    unfolding S_def S2_def by code_simp
  have h: "\<forall>bs :: byte list. [sum_list bs, 1] \<noteq> []" by simp
  have a: "at S = Waiting" "at S2 = Returned []" "calls (sha_writer (asw S)) = [[7]]"
    by (simp_all add: S_def S2_def)
  from digest_timeout_is_not_fatal[OF e h, of id "[]" False] a e2
  have "doneCh (asw S) \<and> sha_writer (asw S2) = sha_writer (asw S)"
    by blast
  with e e2 a show ?thesis by blast
qed

subsection \<open>The destination check\<close>

lemma dest_check_v1_hit:
  assumes "src \<in> set sources" "Abs L src = Inr a" "prefix a absDest"
  shows "\<exists>f. dest_check_v1 L destFile absDest sources = Some f"
  using assms by (induction sources) (auto split: sum.splits)

lemma dest_check_v2_hit:
  assumes "src \<in> set sources" "Abs L src = Inr a" "prefix (with_separator L Stat a) absDest"
  shows "\<exists>f. dest_check_v2 L Stat destFile absDest sources = Some f"
  using assms by (induction sources) (auto split: sum.splits)

lemma dest_check_v1_before:
  assumes "dest_check_v1 L destFile absDest sources = Some f"
  shows "before_create f"
  using assms by (induction sources) (auto split: sum.splits if_splits)

lemma dest_check_v2_before:
  assumes "dest_check_v2 L Stat destFile absDest sources = Some f"
  shows "before_create f"
  using assms by (induction sources) (auto split: sum.splits if_splits)

lemma lies_inside_prefix:
  assumes "lies_inside sep absDest a"
  shows "prefix a absDest"
  using assms by (auto simp: lies_inside_def Let_def split: if_splits dest: append_prefixD)

lemma lies_inside_with_separator:
  assumes "lies_inside (PathSeparator L) absDest a"
  shows "prefix (with_separator L Stat a) absDest"
  using assms
  by (auto simp: lies_inside_def with_separator_def Let_def split: if_splits option.splits bool.splits
      dest: append_prefixD)

text \<open>
  Claim C7. In both variants: when the lists were read, the destination has an absolute
  path, and that path lies inside the absolute path of one of the sources, \<open>main\<close> ends with
  a fatal error that comes before \<open>os.Create\<close>: the destination file is not created and no
  byte is written to it.
\<close>

theorem destination_inside_source_is_fatal:
  assumes "src_txt = Inr sources" and "dst_txt = Inr (destFile # others)"
    and "Abs L destFile = Inr absDest"
    and "src \<in> set sources" and "Abs L src = Inr absSource"
    and "lies_inside (PathSeparator L) absDest absSource"
  shows "(\<exists>f. startup_v1 L src_txt dst_txt scan_err create_err = Inl f \<and> before_create f) \<and>
         (\<exists>f. startup_v2 L Stat src_txt dst_txt create_err = Inl f \<and> before_create f)"
proof
  from assms(4) have ne: "sources \<noteq> []" by auto
  from dest_check_v1_hit[OF assms(4,5) lies_inside_prefix[OF assms(6)]]
  obtain f where f: "dest_check_v1 L destFile absDest sources = Some f" by blast
  with assms(1-3) ne have "startup_v1 L src_txt dst_txt scan_err create_err = Inl f"
    by (simp add: startup_v1_def)
  with dest_check_v1_before[OF f]
  show "\<exists>f. startup_v1 L src_txt dst_txt scan_err create_err = Inl f \<and> before_create f" by blast
  from dest_check_v2_hit[OF assms(4,5) lies_inside_with_separator[OF assms(6)]]
  obtain g where g: "dest_check_v2 L Stat destFile absDest sources = Some g" by blast
  with assms(1-3) ne have "startup_v2 L Stat src_txt dst_txt create_err = Inl g"
    by (simp add: startup_v2_def)
  with dest_check_v2_before[OF g]
  show "\<exists>f. startup_v2 L Stat src_txt dst_txt create_err = Inl f \<and> before_create f" by blast
qed

lemma clean_paths_simps:
  "PathSeparator (clean_paths sep drives) = sep"
  "Abs (clean_paths sep drives) p = Inr p"
  by (simp_all add: clean_paths_def)

theorem destination_inside_source_is_fatal_witness:
  "lies_inside CHR ''/'' ''/data/out/a.zip'' ''/data'' \<and>
   startup_v1 (clean_paths CHR ''/'' False) (Inr [''/home'', ''/data'']) (Inr [''/data/out/a.zip''])
       (\<lambda>s. False) False = Inl (DestInsideSource ''/data/out/a.zip'' ''/data'') \<and>
   startup_v2 (clean_paths CHR ''/'' False) (\<lambda>p. Some True) (Inr [''/home'', ''/data''])
       (Inr [''/data/out/a.zip'']) False = Inl (DestInsideSource ''/data/out/a.zip'' ''/data'') \<and>
   before_create (DestInsideSource ''/data/out/a.zip'' ''/data'')"
proof -
  have li: "lies_inside (PathSeparator (clean_paths CHR ''/'' False)) ''/data/out/a.zip'' ''/data''"
    by (simp add: clean_paths_simps lies_inside_def suffix_to_prefix)
  have v1: "startup_v1 (clean_paths CHR ''/'' False) (Inr [''/home'', ''/data'']) (Inr [''/data/out/a.zip''])
       (\<lambda>s. False) False = Inl (DestInsideSource ''/data/out/a.zip'' ''/data'')"
    by (simp add: startup_v1_def clean_paths_simps)
  have v2: "startup_v2 (clean_paths CHR ''/'' False) (\<lambda>p. Some True) (Inr [''/home'', ''/data''])
       (Inr [''/data/out/a.zip'']) False = Inl (DestInsideSource ''/data/out/a.zip'' ''/data'')"
    by (simp add: startup_v2_def clean_paths_simps with_separator_def suffix_to_prefix)
  have m: "''/data'' \<in> set [''/home'', ''/data'']" by simp
  from destination_inside_source_is_fatal[where others = "[]" and scan_err = "\<lambda>s. False"
      and create_err = False and Stat = "\<lambda>p. Some True",
      OF refl refl clean_paths_simps(2) m clean_paths_simps(2) li]
  have "before_create (DestInsideSource ''/data/out/a.zip'' ''/data'')"
    unfolding v1 v2 by blast
  with v1 v2 li show ?thesis unfolding clean_paths_simps by blast
qed

text \<open>
  Claim C10. The check is a test on string prefixes. When every source has an absolute path,
  main.go ends with the destination-inside-source error exactly when the absolute path of
  some source is a prefix of the destination's; the other variant does so exactly when the
  path of some source, with the separator appended if \<open>os.Stat\<close> reports a directory and the
  path does not end with it, is such a prefix. So main.go refuses the destination
  \<open>/database/out.zip\<close> for the source \<open>/data\<close>, which it does not lie inside; the other variant
  refuses it when \<open>/data\<close> is not a directory and accepts it when it is one.
\<close>

theorem destination_check_is_a_prefix_test:
  "((\<forall>s \<in> set sources. \<exists>a. Abs L s = Inr a) \<longrightarrow>
      ((\<exists>s. dest_check_v1 L destFile absDest sources = Some (DestInsideSource destFile s)) \<longleftrightarrow>
       (\<exists>s \<in> set sources. \<exists>a. Abs L s = Inr a \<and> prefix a absDest)) \<and>
      ((\<exists>s. dest_check_v2 L Stat destFile absDest sources = Some (DestInsideSource destFile s)) \<longleftrightarrow>
       (\<exists>s \<in> set sources. \<exists>a. Abs L s = Inr a \<and> prefix (with_separator L Stat a) absDest))) \<and>
   \<not> lies_inside CHR ''/'' ''/database/out.zip'' ''/data'' \<and>
   startup_v1 (clean_paths CHR ''/'' False) (Inr [''/data'']) (Inr [''/database/out.zip''])
       scan_err create_err = Inl (DestInsideSource ''/database/out.zip'' ''/data'') \<and>
   startup_v2 (clean_paths CHR ''/'' False) (\<lambda>p. Some False) (Inr [''/data''])
       (Inr [''/database/out.zip'']) create_err = Inl (DestInsideSource ''/database/out.zip'' ''/data'') \<and>
   startup_v2 (clean_paths CHR ''/'' False) (\<lambda>p. Some True) (Inr [''/data''])
       (Inr [''/database/out.zip'']) False = Inr ''/database/out.zip''"
proof (intro conjI impI)
  assume "\<forall>s \<in> set sources. \<exists>a. Abs L s = Inr a"
  then show "(\<exists>s. dest_check_v1 L destFile absDest sources = Some (DestInsideSource destFile s)) \<longleftrightarrow>
       (\<exists>s \<in> set sources. \<exists>a. Abs L s = Inr a \<and> prefix a absDest)"
    by (induction sources) (auto split: sum.splits)
next
  assume "\<forall>s \<in> set sources. \<exists>a. Abs L s = Inr a"
  then show "(\<exists>s. dest_check_v2 L Stat destFile absDest sources = Some (DestInsideSource destFile s)) \<longleftrightarrow>
       (\<exists>s \<in> set sources. \<exists>a. Abs L s = Inr a \<and> prefix (with_separator L Stat a) absDest)"
    by (induction sources) (auto split: sum.splits)
next
  show "\<not> lies_inside CHR ''/'' ''/database/out.zip'' ''/data''"
    by (simp add: lies_inside_def suffix_to_prefix)
next
  show "startup_v1 (clean_paths CHR ''/'' False) (Inr [''/data'']) (Inr [''/database/out.zip''])
       scan_err create_err = Inl (DestInsideSource ''/database/out.zip'' ''/data'')"
    by (simp add: startup_v1_def clean_paths_simps)
next
  show "startup_v2 (clean_paths CHR ''/'' False) (\<lambda>p. Some False) (Inr [''/data''])
       (Inr [''/database/out.zip'']) create_err = Inl (DestInsideSource ''/database/out.zip'' ''/data'')"
    by (simp add: startup_v2_def clean_paths_simps with_separator_def suffix_to_prefix)
next
  show "startup_v2 (clean_paths CHR ''/'' False) (\<lambda>p. Some True) (Inr [''/data''])
       (Inr [''/database/out.zip'']) False = Inr ''/database/out.zip''"
    by (simp add: startup_v2_def clean_paths_simps with_separator_def suffix_to_prefix)
qed

theorem destination_check_is_a_prefix_test_witness:
  "Abs (clean_paths CHR ''/'' False) ''/srv'' = Inr ''/srv'' \<and>
   Abs (clean_paths CHR ''/'' False) ''/data'' = Inr ''/data'' \<and>
   dest_check_v1 (clean_paths CHR ''/'' False) ''db.zip'' ''/database/db.zip'' [''/srv'', ''/data'']
     = Some (DestInsideSource ''db.zip'' ''/data'') \<and>
   (\<exists>s \<in> set [''/srv'', ''/data'']. \<exists>a. Abs (clean_paths CHR ''/'' False) s = Inr a \<and>
       prefix a ''/database/db.zip'') \<and>
   dest_check_v2 (clean_paths CHR ''/'' False) (\<lambda>p. Some True) ''db.zip'' ''/database/db.zip''
     [''/srv'', ''/data''] = None \<and>
   \<not> (\<exists>s \<in> set [''/srv'', ''/data'']. \<exists>a. Abs (clean_paths CHR ''/'' False) s = Inr a \<and>
       prefix (with_separator (clean_paths CHR ''/'' False) (\<lambda>p. Some True) a) ''/database/db.zip'')"
proof -
  have a: "\<forall>s \<in> set [''/srv'', ''/data'']. \<exists>a. Abs (clean_paths CHR ''/'' False) s = Inr a"
    by (simp add: clean_paths_simps)
  have v1: "dest_check_v1 (clean_paths CHR ''/'' False) ''db.zip'' ''/database/db.zip'' [''/srv'', ''/data'']
     = Some (DestInsideSource ''db.zip'' ''/data'')"
    by (simp add: clean_paths_simps)
  have v2: "dest_check_v2 (clean_paths CHR ''/'' False) (\<lambda>p. Some True) ''db.zip'' ''/database/db.zip''
     [''/srv'', ''/data''] = None"
    by (simp add: clean_paths_simps with_separator_def suffix_to_prefix)
  note t = destination_check_is_a_prefix_test[of "[''/srv'', ''/data'']" "clean_paths CHR ''/'' False"
      "''db.zip''" "''/database/db.zip''" "\<lambda>p. Some True", THEN conjunct1, THEN mp, OF a]
  from t v1 have p1: "\<exists>s \<in> set [''/srv'', ''/data'']. \<exists>a. Abs (clean_paths CHR ''/'' False) s = Inr a \<and>
       prefix a ''/database/db.zip''"
    by blast
  from t v2 have p2: "\<not> (\<exists>s \<in> set [''/srv'', ''/data'']. \<exists>a. Abs (clean_paths CHR ''/'' False) s = Inr a \<and>
       prefix (with_separator (clean_paths CHR ''/'' False) (\<lambda>p. Some True) a) ''/database/db.zip'')"
    by (metis option.distinct(1))
  have b: "Abs (clean_paths CHR ''/'' False) ''/srv'' = Inr ''/srv''"
    "Abs (clean_paths CHR ''/'' False) ''/data'' = Inr ''/data''"
    by (simp_all add: clean_paths_simps)
  from b v1 v2 p1 p2 show ?thesis by blast
qed

subsection \<open>Errors while copying an entry\<close>

lemma Walk_append:
  "Walk fn st (xs @ ys) =
     (case Walk fn st xs of (Some err, st') \<Rightarrow> (Some err, st') | (None, st') \<Rightarrow> Walk fn st' ys)"
  by (induction xs arbitrary: st) (auto split: prod.splits option.splits)

lemma Walk_stops:
  assumes "Walk fn st pre = (None, st1)" "fn st1 e = (Some err, st2)"
  shows "Walk fn st (pre @ e # post) = (Some err, st2)"
  using assms by (simp add: Walk_append)

lemma compress_v1_stops:
  assumes "compress_v1 L z before = (None, z0)" "addFiles_v1 L z0 src = (Some err, z3)"
  shows "compress_v1 L z (before @ src # later) = (Some (CompressFailed (src_path src) err), z3)"
  using assms by (induction before arbitrary: z) (auto split: prod.splits option.splits)

lemma copy_v1_error_kind:
  assumes "copy_v1 z rs = (Some err, z')"
  shows "err = ReadError \<or> err = ZipError"
  using assms
  by (induction z rs rule: copy_v1.induct)
     (auto split: prod.splits if_splits rstatus.splits bool.splits)

lemma copy_v2_as_v1:
  "copy_v2 st p rs =
     (case copy_v1 (zw st) rs of
        (None, z') \<Rightarrow> st\<lparr>zw := z'\<rparr>
      | (Some err, z') \<Rightarrow>
          st\<lparr>zw := z', logs := logs st @ [if err = ReadError then LogReadError p else LogWriteError p]\<rparr>)"
proof (induction st p rs rule: copy_v2.induct)
  case (1 st p)
  then show ?case by simp
next
  case (2 st p bs rs rest)
  obtain failed z' where w: "(if length bs > 0 then zip_Write (zw st) bs else (False, zw st)) = (failed, z')"
    by (metis surj_pair)
  show ?case
  proof (cases failed)
    case True
    with w show ?thesis by simp
  next
    case False
    show ?thesis
    proof (cases rs)
      case More
      from w False have w': "(False, z') = (if 0 < length bs then zip_Write (zw st) bs else (False, zw st))"
        by simp
      from 2[OF w' refl More] False w More show ?thesis
        by (simp split: prod.splits option.splits)
    next
      case AtEOF
      with False w show ?thesis by simp
    next
      case Broken
      with False w show ?thesis by simp
    qed
  qed
qed

lemma visit_v2_no_error: "fst (visit_v2 L st e) = None"
  by (simp add: visit_v2_def Let_def split: sum.splits prod.splits bool.splits)

lemma Walk_v2_no_error: "fst (Walk (visit_v2 L) st es) = None"
proof (induction es arbitrary: st)
  case Nil
  then show ?case by simp
next
  case (Cons e es)
  obtain st' where "visit_v2 L st e = (None, st')"
    using visit_v2_no_error[of L st e] by (cases "visit_v2 L st e") simp
  with Cons show ?case by simp
qed

lemma compress_v2_no_error: "fst (compress_v2 L st srcs) = None"
proof (induction srcs arbitrary: st)
  case Nil
  then show ?case by simp
next
  case (Cons src srcs)
  obtain st' where "addFiles_v2 L st src = (None, st')"
    using Walk_v2_no_error[of L st "visits src"] by (cases "addFiles_v2 L st src") (simp add: addFiles_v2_def)
  with Cons show ?case by simp
qed

text \<open>
  Claim C3, as the code has it. In main.go, when the copy of an entry ends with an error (a
  read error of the source file or a write error of the archive writer), the callback
  returns it, \<open>filepath.Walk\<close> and \<open>addFiles\<close> return it, and \<open>main\<close> ends with the fatal
  error for that source: the state of the archive is the one the failed copy left, nothing
  of the later entries and sources is processed. In the other variant neither the callback
  nor \<open>addFiles\<close> nor the loop of \<open>main\<close> ever returns an error: the copy makes the same calls on
  the archive writer, logs the error, and the traversal goes on with the entries that
  follow.
\<close>

theorem copy_error_policy:
  assumes "compress_v1 L z before = (None, z0)"
    and "stat src = Some d"
    and "baseDir = (if d then src_path src else Dir L (src_path src))"
    and "visits src = pre @ e # post"
    and "Walk (visit_v1 L (src_path src) baseDir) z0 pre = (None, z1)"
    and "\<not> walk_err e" and "\<not> header_err e" and "\<not> isDir e" and "\<not> open_err e"
    and "Rel L baseDir (path e) = Inr rel"
    and "name = ToSlash L (if baseDir = Dir L (src_path src) \<and> src_path src = path e
                           then Base L (path e) else rel)"
    and "zip_CreateHeader Entry z1 name = (False, z2)"
    and "copy_v1 z2 (reads e) = (Some err, z3)"
  shows "(err = ReadError \<or> err = ZipError) \<and>
         addFiles_v1 L z0 src = (Some err, z3) \<and>
         compress_v1 L z (before @ src # later) = (Some (CompressFailed (src_path src) err), z3) \<and>
         fst (visit_v2 L' st e') = None \<and>
         fst (addFiles_v2 L' st src') = None \<and>
         fst (compress_v2 L' st srcs) = None \<and>
         Walk (visit_v2 L') st (pre' @ e' # post') =
           Walk (visit_v2 L') (snd (visit_v2 L' (snd (Walk (visit_v2 L') st pre')) e')) post' \<and>
         copy_v2 st p rs =
           (case copy_v1 (zw st) rs of
              (None, z') \<Rightarrow> st\<lparr>zw := z'\<rparr>
            | (Some err, z') \<Rightarrow>
                st\<lparr>zw := z',
                   logs := logs st @ [if err = ReadError then LogReadError p else LogWriteError p]\<rparr>)"
proof -
  have k: "err = ReadError \<or> err = ZipError"
    using assms(13) by (rule copy_v1_error_kind)
  have v: "visit_v1 L (src_path src) baseDir z1 e = (Some err, z3)"
    using assms(6-13) by (simp add: visit_v1_def Let_def)
  have a: "addFiles_v1 L z0 src = (Some err, z3)"
    using Walk_stops[OF assms(5) v, of post] assms(2,3,4) by (simp add: addFiles_v1_def)
  have c: "compress_v1 L z (before @ src # later) = (Some (CompressFailed (src_path src) err), z3)"
    using assms(1) a by (rule compress_v1_stops)
  have n1: "fst (visit_v2 L' st e') = None" by (rule visit_v2_no_error)
  have n2: "fst (addFiles_v2 L' st src') = None"
    by (simp add: addFiles_v2_def Walk_v2_no_error)
  have n3: "fst (compress_v2 L' st srcs) = None" by (rule compress_v2_no_error)
  have w: "Walk (visit_v2 L') st (pre' @ e' # post') =
           Walk (visit_v2 L') (snd (visit_v2 L' (snd (Walk (visit_v2 L') st pre')) e')) post'"
  proof -
    obtain s1 where s1: "Walk (visit_v2 L') st pre' = (None, s1)"
      using Walk_v2_no_error[of L' st pre'] by (cases "Walk (visit_v2 L') st pre'") simp
    obtain s2 where s2: "visit_v2 L' s1 e' = (None, s2)"
      using visit_v2_no_error[of L' s1 e'] by (cases "visit_v2 L' s1 e'") simp
    from s1 s2 show ?thesis by (simp add: Walk_append)
  qed
  from k a c n1 n2 n3 w copy_v2_as_v1[of st p rs] show ?thesis by blast
qed

text \<open>
  The claim that every such error ends the run fails in the variant with the digest stage:
  the second read of \<open>/data/a.txt\<close> fails, \<open>addFiles\<close> returns nil all the same, the error is
  logged and \<open>/data/b.txt\<close> is archived after it.
\<close>

theorem copy_error_policy_counterexample:
  "fst (addFiles_v2 (clean_paths CHR ''/'' False) (new_run [])
          \<lparr>src_path = ''/data'', stat = Some True,
           visits = [a_dir ''/data'',
                     a_file ''/data/a.txt'' [([1, 2], More), ([3], Broken)],
                     a_file ''/data/b.txt'' [([4], AtEOF)]]\<rparr>) = None \<and>
   zcalls (zw (snd (addFiles_v2 (clean_paths CHR ''/'' False) (new_run [])
          \<lparr>src_path = ''/data'', stat = Some True,
           visits = [a_dir ''/data'',
                     a_file ''/data/a.txt'' [([1, 2], More), ([3], Broken)],
                     a_file ''/data/b.txt'' [([4], AtEOF)]]\<rparr>))) =
     [CreateHeader Entry ''data/'' False, CreateHeader Entry ''data/a.txt'' False,
      EntryWrite [1, 2] False, EntryWrite [3] False,
      CreateHeader Entry ''data/b.txt'' False, EntryWrite [4] False] \<and>
   logs (snd (addFiles_v2 (clean_paths CHR ''/'' False) (new_run [])
          \<lparr>src_path = ''/data'', stat = Some True,
           visits = [a_dir ''/data'',
                     a_file ''/data/a.txt'' [([1, 2], More), ([3], Broken)],
                     a_file ''/data/b.txt'' [([4], AtEOF)]]\<rparr>)) = [LogReadError ''/data/a.txt'']"
  by code_simp


text \<open>The same files in main.go: the run ends at the failed read, with the fatal error.\<close>

theorem copy_error_policy_witness:
  "compress_v1 (clean_paths CHR ''/'' False) (new_zip [])
     [\<lparr>src_path = ''/data'', stat = Some True,
       visits = [a_dir ''/data'',
                 a_file ''/data/a.txt'' [([1, 2], More), ([3], Broken)],
                 a_file ''/data/b.txt'' [([4], AtEOF)]]\<rparr>,
      \<lparr>src_path = ''/more'', stat = Some True, visits = [a_dir ''/more'']\<rparr>] =
   (Some (CompressFailed ''/data'' ReadError),
    \<lparr>zcalls = [CreateHeader Entry ''./'' False, CreateHeader Entry ''a.txt'' False,
               EntryWrite [1, 2] False, EntryWrite [3] False], zfail = []\<rparr>)"
proof -
  define L where "L = clean_paths CHR ''/'' False"
  define e where "e = a_file ''/data/a.txt'' [([1, 2], More), ([3], Broken)]"
  define post where "post = [a_file ''/data/b.txt'' [([4], AtEOF)]]"
  define src where "src = \<lparr>src_path = ''/data'', stat = Some True, visits = [a_dir ''/data''] @ e # post\<rparr>"
  define z1 where "z1 = \<lparr>zcalls = [CreateHeader Entry ''./'' False], zfail = []\<rparr>"
  define z2 where "z2 = \<lparr>zcalls = [CreateHeader Entry ''./'' False, CreateHeader Entry ''a.txt'' False],
     zfail = []\<rparr>"
  define z3 where "z3 = \<lparr>zcalls = [CreateHeader Entry ''./'' False, CreateHeader Entry ''a.txt'' False,
               EntryWrite [1, 2] False, EntryWrite [3] False], zfail = []\<rparr>"
  have h1: "compress_v1 L (new_zip []) [] = (None, new_zip [])" by simp
  have h2: "stat src = Some True" by (simp add: src_def)
  have h3: "''/data'' = (if True then src_path src else Dir L (src_path src))" by (simp add: src_def)
  have h4: "visits src = [a_dir ''/data''] @ e # post" by (simp add: src_def)
  have h5: "Walk (visit_v1 L (src_path src) ''/data'') (new_zip []) [a_dir ''/data''] = (None, z1)"
    unfolding L_def src_def z1_def by code_simp
  have h6: "\<not> walk_err e" "\<not> header_err e" "\<not> isDir e" "\<not> open_err e"
    by (simp_all add: e_def a_file_def)
  have h7: "Rel L ''/data'' (path e) = Inr ''a.txt''"
    unfolding L_def e_def by code_simp
  have h8: "''a.txt'' = ToSlash L (if ''/data'' = Dir L (src_path src) \<and> src_path src = path e
                           then Base L (path e) else ''a.txt'')"
    unfolding L_def e_def src_def by code_simp
  have h9: "zip_CreateHeader Entry z1 ''a.txt'' = (False, z2)"
    unfolding z1_def z2_def by code_simp
  have h10: "copy_v1 z2 (reads e) = (Some ReadError, z3)"
    unfolding z2_def z3_def e_def by code_simp
  from copy_error_policy[OF h1 h2 h3 h4 h5 h6 h7 h8 h9 h10,
      of "[\<lparr>src_path = ''/more'', stat = Some True, visits = [a_dir ''/more'']\<rparr>]"]
  have "compress_v1 L (new_zip []) ([] @ src # [\<lparr>src_path = ''/more'', stat = Some True, visits = [a_dir ''/more'']\<rparr>])
     = (Some (CompressFailed (src_path src) ReadError), z3)"
    by blast
  then show ?thesis
    by (simp add: L_def src_def z3_def e_def post_def)
qed

subsection \<open>The entry of the traversal root\<close>

lemma entry_calls_append: "entry_calls (xs @ ys) = entry_calls xs @ entry_calls ys"
  by (induction xs rule: entry_calls.induct) simp_all

lemma volume_headers_append: "volume_headers (xs @ ys) = volume_headers xs @ volume_headers ys"
  by (induction xs rule: volume_headers.induct) simp_all

lemma volume_root_calls:
  "zcalls (zw (volume_root st d)) =
     zcalls (zw st) @ (if d \<noteq> [] \<and> d \<notin> createdVolumes st
                       then [CreateHeader Volume (d @ ''/'') (next_fails (zw st))] else [])"
  "createdVolumes (volume_root st d) = (if d \<noteq> [] then insert d (createdVolumes st) else createdVolumes st)"
  by (auto simp: volume_root_def zip_CreateHeader_def)

text \<open>
  Claim C8, as the code has it. In the variant with the volume roots, an entry whose computed
  \<open>zipPath\<close> is empty or \<open>.\<close> gets no header of its own and no payload: the callback returns
  right after the volume-root step, and with an empty drive letter it changes nothing at
  all. main.go has no such check: a directory whose relative name is \<open>.\<close>, the traversal root,
  gets the header \<open>./\<close>.
\<close>

theorem root_entry_skipped:
  "(\<not> walk_err e \<and> \<not> header_err e \<and> Abs L (path e) = Inr a \<and>
      (zipPath_of L a = [] \<or> zipPath_of L a = ''.'') \<longrightarrow>
        visit_v2 L st e = (None, volume_root st (TrimSuffix (VolumeName L a) '':'')) \<and>
        entry_calls (zcalls (zw (snd (visit_v2 L st e)))) = entry_calls (zcalls (zw st)) \<and>
        (TrimSuffix (VolumeName L a) '':'' = [] \<longrightarrow> visit_v2 L st e = (None, st))) \<and>
   (\<not> walk_err e' \<and> \<not> header_err e' \<and> isDir e' \<and> Rel L' baseDir (path e') = Inr ''.'' \<longrightarrow>
        zcalls (snd (visit_v1 L' basePath baseDir z e')) =
          zcalls z @ [CreateHeader Entry (ToSlash L' ''.'' @ ''/'') (next_fails z)])"
proof (intro conjI impI)
  assume h: "\<not> walk_err e \<and> \<not> header_err e \<and> Abs L (path e) = Inr a \<and>
      (zipPath_of L a = [] \<or> zipPath_of L a = ''.'')"
  then show v: "visit_v2 L st e = (None, volume_root st (TrimSuffix (VolumeName L a) '':''))"
    by (auto simp: visit_v2_def Let_def)
  show "entry_calls (zcalls (zw (snd (visit_v2 L st e)))) = entry_calls (zcalls (zw st))"
    by (simp add: v volume_root_calls entry_calls_append)
  show "visit_v2 L st e = (None, st)" if "TrimSuffix (VolumeName L a) '':'' = []"
    using v that by (simp add: volume_root_def)
next
  assume "\<not> walk_err e' \<and> \<not> header_err e' \<and> isDir e' \<and> Rel L' baseDir (path e') = Inr ''.''"
  then show "zcalls (snd (visit_v1 L' basePath baseDir z e')) =
          zcalls z @ [CreateHeader Entry (ToSlash L' ''.'' @ ''/'') (next_fails z)]"
    by (simp add: visit_v1_def Let_def zip_CreateHeader_def split: prod.splits bool.splits)
qed

text \<open>
  The claim that such an entry gets no header fails in main.go: for the source directory
  \<open>/data\<close> the relative name of the traversal root is \<open>.\<close>, and the archive gets the header
  \<open>./\<close> for it.
\<close>

theorem root_entry_skipped_counterexample:
  "Rel (clean_paths CHR ''/'' False) ''/data'' ''/data'' = Inr ''.'' \<and>
   zcalls (snd (addFiles_v1 (clean_paths CHR ''/'' False) (new_zip [])
      \<lparr>src_path = ''/data'', stat = Some True,
       visits = [a_dir ''/data'', a_file ''/data/a.txt'' [([1], AtEOF)]]\<rparr>)) =
     [CreateHeader Entry ''./'' False, CreateHeader Entry ''a.txt'' False, EntryWrite [1] False]"
  by code_simp

theorem root_entry_skipped_witness:
  "zipPath_of (clean_paths CHR ''/'' False) ''/'' = [] \<and>
   visit_v2 (clean_paths CHR ''/'' False) (new_run []) (a_dir ''/'') = (None, new_run []) \<and>
   Rel (clean_paths CHR ''/'' False) ''/data'' (path (a_dir ''/data'')) = Inr ''.'' \<and>
   zcalls (snd (visit_v1 (clean_paths CHR ''/'' False) ''/data'' ''/data'' (new_zip []) (a_dir ''/data'')))
     = [CreateHeader Entry ''./'' False]"
proof -
  define L where "L = clean_paths CHR ''/'' False"
  have a: "\<not> walk_err (a_dir ''/'')" "\<not> header_err (a_dir ''/'')" "Abs L (path (a_dir ''/'')) = Inr ''/''"
    by (simp_all add: a_dir_def L_def clean_paths_simps)
  have z: "zipPath_of L ''/'' = []" unfolding L_def by code_simp
  have t: "TrimSuffix (VolumeName L ''/'') '':'' = []" unfolding L_def by code_simp
  have b: "\<not> walk_err (a_dir ''/data'')" "\<not> header_err (a_dir ''/data'')" "isDir (a_dir ''/data'')"
    by (simp_all add: a_dir_def)
  have r: "Rel L ''/data'' (path (a_dir ''/data'')) = Inr ''.''" unfolding L_def by code_simp
  have s: "ToSlash L ''.'' @ ''/'' = ''./''" unfolding L_def by code_simp
  note inst = root_entry_skipped[of "a_dir ''/''" L "''/''" "new_run []" "a_dir ''/data''" L "''/data''" "''/data''" "new_zip []"]
  from inst a z t have 1: "visit_v2 L (new_run []) (a_dir ''/'') = (None, new_run [])"
    by blast
  from inst b r have "zcalls (snd (visit_v1 L ''/data'' ''/data'' (new_zip []) (a_dir ''/data''))) =
          zcalls (new_zip []) @ [CreateHeader Entry (ToSlash L ''.'' @ ''/'') (next_fails (new_zip []))]"
    by blast
  then have 2: "zcalls (snd (visit_v1 L ''/data'' ''/data'' (new_zip []) (a_dir ''/data''))) = [CreateHeader Entry ''./'' False]"
    by (simp add: s new_zip_def next_fails_def)
  from z 1 r 2 show ?thesis unfolding L_def by blast
qed

subsection \<open>The root directories of the volumes\<close>

lemma copy_v1_calls:
  "\<exists>new. zcalls (snd (copy_v1 z rs)) = zcalls z @ new \<and> volume_headers new = []"
proof (induction z rs rule: copy_v1.induct)
  case (1 z)
  then show ?case by simp
next
  case (2 z bs rs rest)
  obtain failed z' where w: "(if length bs > 0 then zip_Write z bs else (False, z)) = (failed, z')"
    by (metis surj_pair)
  have z': "\<exists>n1. zcalls z' = zcalls z @ n1 \<and> volume_headers n1 = []"
    using w by (auto simp: zip_Write_def split: if_splits)
  show ?case
  proof (cases "failed \<or> rs \<noteq> More")
    case True
    with w z' show ?thesis by (cases rs) (auto split: bool.splits)
  next
    case False
    then have f: "\<not> failed" "rs = More" by auto
    from w f have w': "(False, z') = (if 0 < length bs then zip_Write z bs else (False, z))" by simp
    from 2[OF w' refl f(2)] obtain n2 where n2: "zcalls (snd (copy_v1 z' rest)) = zcalls z' @ n2"
       "volume_headers n2 = []" by blast
    from z' obtain n1 where n1: "zcalls z' = zcalls z @ n1" "volume_headers n1 = []" by blast
    have "copy_v1 z ((bs, rs) # rest) = copy_v1 z' rest" using w f by simp
    with n1 n2 show ?thesis
      by (intro exI[of _ "n1 @ n2"]) (simp add: volume_headers_append)
  qed
qed

lemma copy_v2_frame:
  "createdVolumes (copy_v2 st p rs) = createdVolumes st"
  "\<exists>new. zcalls (zw (copy_v2 st p rs)) = zcalls (zw st) @ new \<and> volume_headers new = []"
  using copy_v1_calls[of "zw st" rs]
  by (auto simp: copy_v2_as_v1 split: prod.splits option.splits)

lemma visit_v2_effect:
  "createdVolumes (snd (visit_v2 L st e)) = createdVolumes (after_root L st e) \<and>
   (\<exists>new. zcalls (zw (snd (visit_v2 L st e))) = zcalls (zw (after_root L st e)) @ new \<and>
          volume_headers new = [])"
proof (cases "letter_of L e")
  case None
  then have "walk_err e \<or> header_err e \<or> (\<exists>err. Abs L (path e) = Inl err)"
    by (auto simp: letter_of_def split: if_splits sum.splits)
  then have "createdVolumes (snd (visit_v2 L st e)) = createdVolumes st \<and>
      zw (snd (visit_v2 L st e)) = zw st"
    by (auto simp: visit_v2_def)
  with None show ?thesis by (auto simp: after_root_def)
next
  case (Some d)
  then obtain a where a: "\<not> walk_err e" "\<not> header_err e" "Abs L (path e) = Inr a"
     "d = TrimSuffix (VolumeName L a) '':''"
    by (auto simp: letter_of_def split: if_splits sum.splits)
  let ?st1 = "volume_root st d"
  let ?name = "ToSlash L (zipPath_of L a) @ (if isDir e then ''/'' else [])"
  have ar: "after_root L st e = ?st1" using Some by (simp add: after_root_def)
  show ?thesis
  proof (cases "zipPath_of L a = [] \<or> zipPath_of L a = ''.''")
    case True
    with a have "visit_v2 L st e = (None, ?st1)" by (auto simp: visit_v2_def Let_def)
    with ar show ?thesis by simp
  next
    case False
    obtain failed z' where c: "zip_CreateHeader Entry (zw ?st1) ?name = (failed, z')"
      by (metis surj_pair)
    then have z': "zcalls z' = zcalls (zw ?st1) @ [CreateHeader Entry ?name failed]"
      by (auto simp: zip_CreateHeader_def)
    show ?thesis
    proof (cases "failed \<or> isDir e \<or> open_err e")
      case True
      with a False c have "createdVolumes (snd (visit_v2 L st e)) = createdVolumes ?st1 \<and>
          zw (snd (visit_v2 L st e)) = z'"
        by (cases failed) (auto simp: visit_v2_def Let_def)
      with z' ar show ?thesis by auto
    next
      case copy: False
      with a False c have v: "snd (visit_v2 L st e) = copy_v2 (?st1\<lparr>zw := z'\<rparr>) (path e) (reads e)"
        by (auto simp: visit_v2_def Let_def)
      from copy_v2_frame[of "?st1\<lparr>zw := z'\<rparr>" "path e" "reads e"] obtain new where
        n: "createdVolumes (copy_v2 (?st1\<lparr>zw := z'\<rparr>) (path e) (reads e)) = createdVolumes ?st1"
           "zcalls (zw (copy_v2 (?st1\<lparr>zw := z'\<rparr>) (path e) (reads e))) = zcalls z' @ new"
           "volume_headers new = []"
        by auto
      from v n z' ar show ?thesis
        by (intro conjI exI[of _ "CreateHeader Entry ?name failed # new"]) simp_all
    qed
  qed
qed

lemma visit_v2_volumes:
  "volume_headers (zcalls (zw (snd (visit_v2 L st e)))) =
     volume_headers (zcalls (zw st)) @ map (\<lambda>d. d @ ''/'') (new_letters (createdVolumes st) [letter_of L e])"
  "createdVolumes (snd (visit_v2 L st e)) =
     createdVolumes st \<union> {d. letter_of L e = Some d \<and> d \<noteq> []}"
proof -
  from visit_v2_effect[of L st e] obtain new where
    n: "createdVolumes (snd (visit_v2 L st e)) = createdVolumes (after_root L st e)"
       "zcalls (zw (snd (visit_v2 L st e))) = zcalls (zw (after_root L st e)) @ new"
       "volume_headers new = []"
    by blast
  show "volume_headers (zcalls (zw (snd (visit_v2 L st e)))) =
     volume_headers (zcalls (zw st)) @ map (\<lambda>d. d @ ''/'') (new_letters (createdVolumes st) [letter_of L e])"
    using n by (cases "letter_of L e") (auto simp: after_root_def volume_root_calls volume_headers_append)
  show "createdVolumes (snd (visit_v2 L st e)) =
     createdVolumes st \<union> {d. letter_of L e = Some d \<and> d \<noteq> []}"
    using n by (cases "letter_of L e") (auto simp: after_root_def volume_root_calls)
qed

lemma new_letters_append:
  "new_letters seen (xs @ ys) =
     new_letters seen xs @ new_letters (seen \<union> {d. Some d \<in> set xs \<and> d \<noteq> []}) ys"
proof (induction seen xs rule: new_letters.induct)
  case (1 seen)
  then show ?case by simp
next
  case (2 seen ds)
  then show ?case by simp
next
  case (3 seen d ds)
  have eq1: "insert d seen \<union> {x. Some x \<in> set ds \<and> x \<noteq> []} = seen \<union> {x. (x = d \<or> Some x \<in> set ds) \<and> x \<noteq> []}"
    if "d \<noteq> []" using that by auto
  have eq2: "seen \<union> {x. Some x \<in> set ds \<and> x \<noteq> []} = seen \<union> {x. (x = d \<or> Some x \<in> set ds) \<and> x \<noteq> []}"
    if "d = [] \<or> d \<in> seen" using that by auto
  show ?case
  proof (cases "d = [] \<or> d \<in> seen")
    case True
    with 3 eq2 show ?thesis by simp
  next
    case False
    with 3 eq1 show ?thesis by simp
  qed
qed

lemma Walk_v2_volumes:
  "volume_headers (zcalls (zw (snd (Walk (visit_v2 L) st es)))) =
     volume_headers (zcalls (zw st)) @
     map (\<lambda>d. d @ ''/'') (new_letters (createdVolumes st) (map (letter_of L) es))"
proof (induction es arbitrary: st)
  case Nil
  then show ?case by simp
next
  case (Cons e es)
  obtain st' where v: "visit_v2 L st e = (None, st')"
    using visit_v2_no_error[of L st e] by (cases "visit_v2 L st e") simp
  from visit_v2_volumes[of L st e] v
  have 1: "volume_headers (zcalls (zw st')) =
     volume_headers (zcalls (zw st)) @ map (\<lambda>d. d @ ''/'') (new_letters (createdVolumes st) [letter_of L e])"
    and 2: "createdVolumes st' = createdVolumes st \<union> {d. letter_of L e = Some d \<and> d \<noteq> []}"
    by simp_all
  have "new_letters (createdVolumes st) (map (letter_of L) (e # es)) =
      new_letters (createdVolumes st) [letter_of L e] @ new_letters (createdVolumes st') (map (letter_of L) es)"
    using new_letters_append[of "createdVolumes st" "[letter_of L e]" "map (letter_of L) es"] 2
    by (simp add: eq_commute[of "Some _" "letter_of L e"])
  with Cons[of st'] v 1 show ?case by simp
qed

lemma compress_v2_as_Walk:
  "snd (compress_v2 L st srcs) = snd (Walk (visit_v2 L) st (concat (map visits srcs)))"
proof (induction srcs arbitrary: st)
  case Nil
  then show ?case by simp
next
  case (Cons src srcs)
  obtain st' where a: "Walk (visit_v2 L) st (visits src) = (None, st')"
    using Walk_v2_no_error[of L st "visits src"] by (cases "Walk (visit_v2 L) st (visits src)") simp
  with Cons[of st'] show ?case by (simp add: addFiles_v2_def Walk_append)
qed

lemma new_letters_set:
  "set (new_letters seen ds) = {d. Some d \<in> set ds \<and> d \<noteq> []} - seen"
  by (induction seen ds rule: new_letters.induct) auto

lemma new_letters_distinct: "distinct (new_letters seen ds)"
  by (induction seen ds rule: new_letters.induct) (auto simp: new_letters_set)

lemma visit_v1_volumes:
  "volume_headers (zcalls (snd (visit_v1 L basePath baseDir z e))) = volume_headers (zcalls z)"
proof -
  have c: "volume_headers (zcalls (snd (copy_v1 z1 rs))) = volume_headers (zcalls z1)" for z1 rs
    using copy_v1_calls[of z1 rs] by (auto simp: volume_headers_append)
  show ?thesis
    by (auto simp: visit_v1_def Let_def zip_CreateHeader_def c volume_headers_append
        split: sum.splits prod.splits bool.splits)
qed

lemma Walk_v1_volumes:
  "volume_headers (zcalls (snd (Walk (visit_v1 L basePath baseDir) z es))) = volume_headers (zcalls z)"
proof (induction es arbitrary: z)
  case Nil
  then show ?case by simp
next
  case (Cons e es)
  obtain r z' where v: "visit_v1 L basePath baseDir z e = (r, z')" by (metis surj_pair)
  with visit_v1_volumes[of L basePath baseDir z e]
  have "volume_headers (zcalls z') = volume_headers (zcalls z)" by simp
  with Cons[of z'] v show ?case by (cases r) simp_all
qed

lemma compress_v1_volumes:
  "volume_headers (zcalls (snd (compress_v1 L z srcs))) = volume_headers (zcalls z)"
proof (induction srcs arbitrary: z)
  case Nil
  then show ?case by simp
next
  case (Cons src srcs)
  obtain r z' where a: "addFiles_v1 L z src = (r, z')" by (metis surj_pair)
  have "volume_headers (zcalls (snd (addFiles_v1 L z src))) = volume_headers (zcalls z)"
    by (simp add: addFiles_v1_def Walk_v1_volumes split: option.splits)
  with a have "volume_headers (zcalls z') = volume_headers (zcalls z)" by simp
  with Cons[of z'] a show ?case by (cases r) simp_all
qed

text \<open>
  What the bookkeeping of \<open>createdVolumes\<close> achieves. In the variant with the volume roots,
  over a whole run the calls at the place that creates a volume root are, in order, one call named \<open>d/\<close> for each drive letter
  \<open>d\<close> in the order in which the letters are first met: each non-empty letter of an entry that
  gets as far as computing it occurs exactly once. The call is made when the letter is met
  for the first time, before anything else is written for that entry, and an entry whose
  letter is empty or was met before makes no such call. main.go makes no such call at all.
\<close>

lemma volume_site_calls:
  "volume_headers (zcalls (zw (snd (compress_v2 L (new_run fs) srcs)))) =
     map (\<lambda>d. d @ ''/'') (new_letters {} (map (letter_of L) (concat (map visits srcs)))) \<and>
   distinct (new_letters {} ds) \<and>
   set (new_letters {} ds) = {d. Some d \<in> set ds \<and> d \<noteq> []} \<and>
   (letter_of L e = Some d \<and> d \<noteq> [] \<and> d \<notin> createdVolumes st \<longrightarrow>
      prefix (zcalls (zw st) @ [CreateHeader Volume (d @ ''/'') (next_fails (zw st))])
             (zcalls (zw (snd (visit_v2 L st e)))) \<and>
      d \<in> createdVolumes (snd (visit_v2 L st e))) \<and>
   (letter_of L e = Some d \<and> (d = [] \<or> d \<in> createdVolumes st) \<longrightarrow>
      volume_headers (zcalls (zw (snd (visit_v2 L st e)))) = volume_headers (zcalls (zw st))) \<and>
   volume_headers (zcalls (snd (compress_v1 L1 (new_zip fs1) srcs1))) = []"
proof (intro conjI impI)
  show "volume_headers (zcalls (zw (snd (compress_v2 L (new_run fs) srcs)))) =
     map (\<lambda>d. d @ ''/'') (new_letters {} (map (letter_of L) (concat (map visits srcs))))"
    by (simp add: compress_v2_as_Walk Walk_v2_volumes new_run_def new_zip_def)
  show "distinct (new_letters {} ds)" by (rule new_letters_distinct)
  show "set (new_letters {} ds) = {d. Some d \<in> set ds \<and> d \<noteq> []}"
    by (simp add: new_letters_set)
  show "volume_headers (zcalls (snd (compress_v1 L1 (new_zip fs1) srcs1))) = []"
    by (simp add: compress_v1_volumes new_zip_def)
next
  assume h: "letter_of L e = Some d \<and> d \<noteq> [] \<and> d \<notin> createdVolumes st"
  from visit_v2_effect[of L st e] h obtain new where
    n: "createdVolumes (snd (visit_v2 L st e)) = createdVolumes (volume_root st d)"
       "zcalls (zw (snd (visit_v2 L st e))) = zcalls (zw (volume_root st d)) @ new"
    by (auto simp: after_root_def)
  from n(2) h show "prefix (zcalls (zw st) @ [CreateHeader Volume (d @ ''/'') (next_fails (zw st))])
             (zcalls (zw (snd (visit_v2 L st e))))"
    by (simp add: volume_root_calls)
  from n(1) h show "d \<in> createdVolumes (snd (visit_v2 L st e))"
    by (simp add: volume_root_calls)
next
  assume h: "letter_of L e = Some d \<and> (d = [] \<or> d \<in> createdVolumes st)"
  then show "volume_headers (zcalls (zw (snd (visit_v2 L st e)))) = volume_headers (zcalls (zw st))"
    by (auto simp: visit_v2_volumes)
qed

text \<open>
  main.go names the entries relative to the source and creates no volume roots: the entries
  below lie on drive \<open>C:\<close>, and the archive gets the headers \<open>./\<close> and \<open>a.txt\<close> only.
\<close>

lemma no_volume_roots_in_main_go:
  "VolumeName (clean_paths backslash True) (''C:'' @ [backslash] @ ''data'' @ [backslash] @ ''a.txt'') = ''C:'' \<and>
   headers (zcalls (snd (addFiles_v1 (clean_paths backslash True) (new_zip [])
      \<lparr>src_path = ''C:'' @ [backslash] @ ''data'', stat = Some True,
       visits = [a_dir (''C:'' @ [backslash] @ ''data''),
                 a_file (''C:'' @ [backslash] @ ''data'' @ [backslash] @ ''a.txt'') [([1], AtEOF)]]\<rparr>))) =
     [''./'', ''a.txt'']"
  by code_simp

lemma volume_site_calls_example:
  "volume_headers (zcalls (zw (snd (compress_v2 (clean_paths backslash True) (new_run [])
      [\<lparr>src_path = ''C:'' @ [backslash] @ ''data'', stat = Some True,
        visits = [a_dir (''C:'' @ [backslash] @ ''data''),
                  a_file (''C:'' @ [backslash] @ ''data'' @ [backslash] @ ''a.txt'') [([1], AtEOF)]]\<rparr>,
       \<lparr>src_path = ''D:'' @ [backslash] @ ''b.txt'', stat = Some False,
        visits = [a_file (''D:'' @ [backslash] @ ''b.txt'') [([2], AtEOF)]]\<rparr>,
       \<lparr>src_path = ''C:'' @ [backslash] @ ''c.txt'', stat = Some False,
        visits = [a_file (''C:'' @ [backslash] @ ''c.txt'') [([3], AtEOF)]]\<rparr>])))) = [''C/'', ''D/''] \<and>
   letter_of (clean_paths backslash True) (a_dir (''C:'' @ [backslash] @ ''data'')) = Some ''C'' \<and>
   prefix [CreateHeader Volume ''C/'' False]
     (zcalls (zw (snd (visit_v2 (clean_paths backslash True) (new_run [])
        (a_dir (''C:'' @ [backslash] @ ''data''))))))"
proof -
  define W where "W = clean_paths backslash True"
  define srcs where "srcs =
      [\<lparr>src_path = ''C:'' @ [backslash] @ ''data'', stat = Some True,
        visits = [a_dir (''C:'' @ [backslash] @ ''data''),
                  a_file (''C:'' @ [backslash] @ ''data'' @ [backslash] @ ''a.txt'') [([1], AtEOF)]]\<rparr>,
       \<lparr>src_path = ''D:'' @ [backslash] @ ''b.txt'', stat = Some False,
        visits = [a_file (''D:'' @ [backslash] @ ''b.txt'') [([2], AtEOF)]]\<rparr>,
       \<lparr>src_path = ''C:'' @ [backslash] @ ''c.txt'', stat = Some False,
        visits = [a_file (''C:'' @ [backslash] @ ''c.txt'') [([3], AtEOF)]]\<rparr>]"
  have n: "map (\<lambda>d. d @ ''/'') (new_letters {} (map (letter_of W) (concat (map visits srcs)))) = [''C/'', ''D/'']"
    unfolding W_def srcs_def by code_simp
  have l: "letter_of W (a_dir (''C:'' @ [backslash] @ ''data'')) = Some ''C''"
    unfolding W_def by code_simp
  have c: "''C'' \<noteq> []" "''C'' \<notin> createdVolumes (new_run [])"
    by (simp_all add: new_run_def)
  have z: "zcalls (zw (new_run [])) @ [CreateHeader Volume (''C'' @ ''/'') (next_fails (zw (new_run [])))]
      = [CreateHeader Volume ''C/'' False]"
    by (simp add: new_run_def new_zip_def next_fails_def)
  note inst = volume_site_calls[of W "[]" srcs "[]" "a_dir (''C:'' @ [backslash] @ ''data'')" "''C''" "new_run []"]
  from inst n have 1: "volume_headers (zcalls (zw (snd (compress_v2 W (new_run []) srcs)))) = [''C/'', ''D/'']"
    by simp
  from inst l c have "prefix (zcalls (zw (new_run [])) @ [CreateHeader Volume (''C'' @ ''/'') (next_fails (zw (new_run [])))])
     (zcalls (zw (snd (visit_v2 W (new_run []) (a_dir (''C:'' @ [backslash] @ ''data''))))))"
    by blast
  then have 2: "prefix [CreateHeader Volume ''C/'' False]
     (zcalls (zw (snd (visit_v2 W (new_run []) (a_dir (''C:'' @ [backslash] @ ''data''))))))"
    by (simp only: z)
  from 1 l 2 show ?thesis unfolding W_def srcs_def by blast
qed

text \<open>
  Claim C9: one header per distinct root, named by its letter and \<open>/\<close>, and never a second
  header for the same root. The code misses it when a source is the root of a drive itself.
  For the root directory of drive \<open>D:\<close> the callback creates the volume root \<open>D/\<close> (the call guarded by
  \<open>createdVolumes\<close>, commented as made only once) and then, since \<open>zipPath\<close> is \<open>D\<close> and neither
  empty nor \<open>.\<close>, the entry's own header, a directory named \<open>D/\<close> again: the archive holds
  two headers \<open>D/\<close>.
\<close>

theorem drive_root_named_twice:
  "Abs (clean_paths backslash True) (''D:'' @ [backslash]) = Inr (''D:'' @ [backslash]) \<and>
   VolumeName (clean_paths backslash True) (''D:'' @ [backslash]) = ''D:'' \<and>
   zcalls (zw (snd (compress_v2 (clean_paths backslash True) (new_run [])
      [\<lparr>src_path = ''D:'' @ [backslash], stat = Some True,
        visits = [a_dir (''D:'' @ [backslash]),
                  a_file (''D:'' @ [backslash] @ ''b.txt'') [([1], AtEOF)]]\<rparr>]))) =
     [CreateHeader Volume ''D/'' False, CreateHeader Entry ''D/'' False,
      CreateHeader Entry ''D/b.txt'' False, EntryWrite [1] False] \<and>
   headers (zcalls (zw (snd (compress_v2 (clean_paths backslash True) (new_run [])
      [\<lparr>src_path = ''D:'' @ [backslash], stat = Some True,
        visits = [a_dir (''D:'' @ [backslash]),
                  a_file (''D:'' @ [backslash] @ ''b.txt'') [([1], AtEOF)]]\<rparr>])))) =
     [''D/'', ''D/'', ''D/b.txt'']"
  by code_simp

subsection \<open>The pause gate\<close>

lemma gated_append:
  "gated k since (xs @ ys) \<longleftrightarrow> gated k since xs \<and> gated k (foldl next_since since xs) ys"
  by (induction xs arbitrary: since) auto

lemma gated_free_append:
  assumes "gated k since xs" "\<And>since'. gated k since' ys"
  shows "gated k since (xs @ ys)"
  using assms by (simp add: gated_append)

lemma gated_copy_events: "gated k since (copy_events z rs)"
proof (induction z rs arbitrary: since rule: copy_events.induct)
  case (1 z)
  then show ?case by (simp add: next_since_def)
next
  case (2 z bs rs rest)
  show ?case
  proof (cases "length bs > 0")
    case True
    obtain failed z' where w: "zip_Write z bs = (failed, z')" by (metis surj_pair)
    show ?thesis
    proof (cases "failed \<or> rs \<noteq> More")
      case stop: True
      with True w show ?thesis by (cases failed; cases rs) (simp_all add: next_since_def)
    next
      case False
      then have f: "failed = False" "rs = More" by auto
      from 2(1)[OF True w[symmetric] f] True w f show ?thesis by (simp add: next_since_def)
    qed
  next
    case False
    show ?thesis
    proof (cases rs)
      case More
      from 2(2)[OF False More] False More show ?thesis by (simp add: next_since_def)
    qed (use False in \<open>simp_all add: next_since_def\<close>)
  qed
qed

lemma gated_visit_events_v1: "gated (Suc k) since (visit_events_v1 L basePath baseDir z e)"
proof (cases "walk_err e \<or> header_err e")
  case True
  then show ?thesis by (auto simp: visit_events_v1_def)
next
  case False
  show ?thesis
  proof (cases "Rel L baseDir (path e)")
    case (Inl err)
    with False show ?thesis by (simp add: visit_events_v1_def)
  next
    case (Inr rel)
    define name where "name = ToSlash L (if \<not> isDir e \<and> baseDir = Dir L basePath \<and> basePath = path e
                                then Base L (path e) else rel) @ (if isDir e then ''/'' else [])"
    obtain failed z1 where c: "zip_CreateHeader Entry z name = (failed, z1)" by (metis surj_pair)
    have w: "visit_events_v1 L basePath baseDir z e =
               Gate # (if failed then [Header]
                       else Header # (if isDir e \<or> open_err e then [] else copy_events z1 (reads e)))"
      using False Inr c by (cases failed) (auto simp: visit_events_v1_def Let_def name_def)
    show ?thesis unfolding w by (simp add: next_since_def gated_copy_events)
  qed
qed

lemma gated_visit_events_v2: "gated (Suc (Suc k)) since (visit_events_v2 L st e)"
proof (cases "walk_err e \<or> header_err e")
  case True
  then show ?thesis by (auto simp: visit_events_v2_def)
next
  case False
  show ?thesis
  proof (cases "Abs L (path e)")
    case (Inl err)
    with False show ?thesis by (simp add: visit_events_v2_def)
  next
    case (Inr absPath)
    define d where "d = TrimSuffix (VolumeName L absPath) '':''"
    define st1 where "st1 = volume_root st d"
    define zipPath where "zipPath = zipPath_of L absPath"
    define name where "name = ToSlash L zipPath @ (if isDir e then ''/'' else [])"
    define vol where "vol = (if d \<noteq> [] \<and> d \<notin> createdVolumes st then [Header] else [])"
    obtain failed z' where c: "zip_CreateHeader Entry (zw st1) name = (failed, z')"
      by (metis surj_pair)
    have w: "visit_events_v2 L st e =
               Gate # vol @
               (if zipPath = [] \<or> zipPath = ''.'' then []
                else if failed then [Header]
                else Header # (if isDir e \<or> open_err e then [] else copy_events z' (reads e)))"
      using False Inr c
      by (cases failed)
        (auto simp: visit_events_v2_def Let_def d_def st1_def zipPath_def name_def vol_def)
    show ?thesis unfolding w vol_def by (simp add: next_since_def gated_copy_events)
  qed
qed

lemma gated_walk_events_v1: "gated (Suc k) since (walk_events_v1 L basePath baseDir z es)"
proof (induction es arbitrary: z since)
  case Nil
  then show ?case by simp
next
  case (Cons e es)
  obtain r z' where v: "visit_v1 L basePath baseDir z e = (r, z')" by (metis surj_pair)
  show ?case
  proof (cases r)
    case None
    with v Cons show ?thesis
      by (simp add: gated_free_append gated_visit_events_v1)
  next
    case (Some err)
    with v show ?thesis by (simp add: gated_visit_events_v1)
  qed
qed

lemma gated_main_events_v1: "gated (Suc k) since (main_events_v1 L z srcs)"
proof (induction srcs arbitrary: z since)
  case Nil
  then show ?case by simp
next
  case (Cons src srcs)
  show ?case
  proof (cases "stat src")
    case None
    then show ?thesis by simp
  next
    case (Some d)
    obtain r z' where a: "addFiles_v1 L z src = (r, z')" by (metis surj_pair)
    show ?thesis
    proof (cases r)
      case None
      with a Some Cons show ?thesis
        by (simp add: gated_free_append gated_walk_events_v1)
    next
      case err: (Some err)
      with a Some show ?thesis by (simp add: gated_walk_events_v1)
    qed
  qed
qed

lemma gated_main_events_v2: "gated (Suc (Suc k)) since (main_events_v2 L st es)"
proof (induction es arbitrary: st since)
  case Nil
  then show ?case by simp
next
  case (Cons e es)
  then show ?case by (simp add: gated_free_append gated_visit_events_v2)
qed

lemma done_events_append: "done_events (xs @ ys) = done_events xs @ done_events ys"
  by (induction xs rule: done_events.induct) simp_all

lemma done_events_Did: "done_events (map (\<lambda>ev. Did ev b) evs) = evs"
  by (induction evs) simp_all

lemma act_inv:
  assumes "act a s = Some s'"
  shows "done_events (plog s') @ program s' = done_events (plog s) @ program s"
    and "Did Gate True \<in> set (plog s') \<longrightarrow> Did Gate True \<in> set (plog s)"
proof -
  have "done_events (plog s') @ program s' = done_events (plog s) @ program s \<and>
     (Did Gate True \<in> set (plog s') \<longrightarrow> Did Gate True \<in> set (plog s))"
  proof (cases a)
    case Keyboard
    with assms show ?thesis by (auto simp: done_events_append)
  next
    case Producer
    with assms obtain ev rest where p: "program s = ev # rest" by (auto split: list.splits)
    show ?thesis
    proof (cases "ev = Gate")
      case True
      with assms Producer p show ?thesis
        by (auto simp: done_events_append WaitIfPaused_def split: if_splits)
    next
      case False
      with assms Producer p show ?thesis
        by (auto simp: done_events_append)
    qed
  qed
  then show "done_events (plog s') @ program s' = done_events (plog s) @ program s"
    and "Did Gate True \<in> set (plog s') \<longrightarrow> Did Gate True \<in> set (plog s)"
    by blast+
qed

lemma play_inv:
  assumes "play sched s = Some s'"
  shows "done_events (plog s') @ program s' = done_events (plog s) @ program s \<and>
     (Did Gate True \<in> set (plog s') \<longrightarrow> Did Gate True \<in> set (plog s))"
  using assms
proof (induction sched arbitrary: s)
  case Nil
  then show ?case by simp
next
  case (Cons a sched)
  from Cons.prems obtain s1 where a: "act a s = Some s1" and p: "play sched s1 = Some s'"
    by (auto split: option.splits)
  from Cons.IH[OF p] act_inv[OF a] show ?case by auto
qed


text \<open>
  \<open>good k l\<close>: the events \<open>l\<close> taken since a \<open>WaitIfPaused\<close> are, the closing of the archive
  apart, the beginning of \<open>k\<close> calls of \<open>CreateHeader\<close> or of one \<open>file.Read\<close> with its
  \<open>writer.Write\<close>.
\<close>

lemma work_simps:
  "work [] = []"
  "work (xs @ ys) = work xs @ work ys"
  "work (Finish # xs) = work xs"
  "ev \<noteq> Finish \<Longrightarrow> work (ev # xs) = ev # work xs"
  by (simp_all add: work_def)

lemma work_replicate_Header: "work (replicate n Header) = replicate n Header"
  by (induction n) (simp_all add: work_simps)

lemma step_good:
  assumes "permitted k (Some l) ev" "ev \<noteq> Gate"
    and "prefix (work l) (replicate k Header) \<or> prefix (work l) [ReadChunk, WriteChunk]"
  shows "prefix (work (l @ [ev])) (replicate k Header) \<or>
         prefix (work (l @ [ev])) [ReadChunk, WriteChunk]"
proof (cases ev)
  case Gate
  with assms(2) show ?thesis by simp
next
  case Header
  with assms(1) obtain n where l: "l = replicate n Header" and n: "n < k" by auto
  have "replicate k Header = replicate (Suc n) Header @ replicate (k - Suc n) Header"
    using n by (simp add: replicate_add[symmetric] del: replicate_Suc)
  moreover have "work (l @ [ev]) = replicate (Suc n) Header"
    using l Header by (simp add: work_simps work_replicate_Header replicate_append_same)
  ultimately show ?thesis by (metis prefixI)
next
  case ReadChunk
  with assms(1) show ?thesis by (simp add: work_simps)
next
  case WriteChunk
  with assms(1) show ?thesis by (simp add: work_simps)
next
  case Finish
  with assms(3) show ?thesis by (simp add: work_simps)
qed

lemma run_good:
  assumes "gated k (Some l) evs" "Gate \<notin> set evs"
    and "prefix (work l) (replicate k Header) \<or> prefix (work l) [ReadChunk, WriteChunk]"
  shows "prefix (work (l @ evs)) (replicate k Header) \<or>
         prefix (work (l @ evs)) [ReadChunk, WriteChunk]"
  using assms
proof (induction evs arbitrary: l)
  case Nil
  then show ?case by simp
next
  case (Cons ev evs)
  from Cons.prems have ev: "permitted k (Some l) ev" "ev \<noteq> Gate"
    and rest: "gated k (Some (l @ [ev])) evs" "Gate \<notin> set evs"
    by (auto simp: next_since_def)
  from Cons.IH[OF rest step_good[OF ev Cons.prems(3)]] show ?case by simp
qed

lemma run_before_gate:
  assumes "gated k None evs" "Gate \<notin> set evs"
  shows "work evs = []"
  using assms
proof (induction evs)
  case Nil
  then show ?case by (simp add: work_simps)
next
  case (Cons ev evs)
  from Cons.prems have "ev = Finish" by (cases ev) auto
  with Cons show ?case by (simp add: work_simps next_since_def)
qed

lemma reach_good:
  assumes "gated k since xs"
    and "\<And>l. since = Some l \<Longrightarrow>
           prefix (work l) (replicate k Header) \<or> prefix (work l) [ReadChunk, WriteChunk]"
    and "foldl next_since since xs = Some l'"
  shows "prefix (work l') (replicate k Header) \<or> prefix (work l') [ReadChunk, WriteChunk]"
  using assms
proof (induction xs arbitrary: since)
  case Nil
  then show ?case by simp
next
  case (Cons ev xs)
  from Cons.prems(1) have p: "permitted k since ev" and g: "gated k (next_since since ev) xs"
    by auto
  have n: "prefix (work l) (replicate k Header) \<or> prefix (work l) [ReadChunk, WriteChunk]"
    if "next_since since ev = Some l" for l
  proof (cases "ev = Gate")
    case True
    with that show ?thesis by (simp add: next_since_def work_simps)
  next
    case False
    with that obtain l0 where s: "since = Some l0" and l: "l = l0 @ [ev]"
      by (auto simp: next_since_def)
    from step_good[OF p[unfolded s] False Cons.prems(2)[OF s]] l show ?thesis by simp
  qed
  from Cons.prems(3) have "foldl next_since (next_since since ev) xs = Some l'" by simp
  from Cons.IH[OF g n this] show ?case .
qed

lemma paused_stretch:
  assumes "gated k None (xs @ evs @ zs)" "Gate \<notin> set evs"
  shows "sublist (work evs) (replicate k Header) \<or> sublist (work evs) [ReadChunk, WriteChunk]"
proof -
  define since where "since = foldl next_since None xs"
  from assms(1) have x: "gated k None xs" and e: "gated k since evs"
    by (simp_all add: gated_append since_def)
  show ?thesis
  proof (cases since)
    case None
    with e assms(2) have "work evs = []" by (simp add: run_before_gate)
    then show ?thesis by simp
  next
    case (Some l)
    have "prefix (work l) (replicate k Header) \<or> prefix (work l) [ReadChunk, WriteChunk]"
      by (rule reach_good[OF x _ Some[unfolded since_def]]) simp
    from run_good[OF e[unfolded Some] assms(2) this]
    have "prefix (work l @ work evs) (replicate k Header) \<or>
          prefix (work l @ work evs) [ReadChunk, WriteChunk]"
      by (simp add: work_simps)
    then show ?thesis by (auto simp: prefix_def sublist_def)
  qed
qed

lemma sublist_count:
  assumes "sublist xs ys"
  shows "length (filter Q xs) \<le> length (filter Q ys)"
  using assms by (auto simp: sublist_def)

lemma count_work:
  "ev \<noteq> Finish \<Longrightarrow> filter ((=) ev) (work evs) = filter ((=) ev) evs"
  by (induction evs) (auto simp: work_def)

lemma paused_counts:
  assumes "sublist (work evs) (replicate k Header) \<or> sublist (work evs) [ReadChunk, WriteChunk]"
  shows "length (filter ((=) Header) evs) \<le> k \<and> length (filter ((=) ReadChunk) evs) \<le> 1 \<and>
         length (filter ((=) WriteChunk) evs) \<le> 1"
proof -
  have h: "length (filter ((=) ev) evs) \<le> length (filter ((=) ev) T)"
    if "ev \<noteq> Finish" "sublist (work evs) T" for ev T
    using sublist_count[OF that(2), of "(=) ev"] count_work[OF that(1), of evs] by simp
  have r: "length (filter ((=) ev) (replicate k Header)) = (if ev = Header then k else 0)" for ev
    by (induction k) auto
  from assms show ?thesis
  proof
    assume s: "sublist (work evs) (replicate k Header)"
    from h[OF _ s, of Header] h[OF _ s, of ReadChunk] h[OF _ s, of WriteChunk]
    show ?thesis by (simp add: r)
  next
    assume s: "sublist (work evs) [ReadChunk, WriteChunk]"
    from h[OF _ s, of Header] h[OF _ s, of ReadChunk] h[OF _ s, of WriteChunk]
    show ?thesis by simp
  qed
qed

text \<open>While the flag is clear the producer is never blocked.\<close>

lemma play_append:
  "play (as @ bs) s = (case play as s of None \<Rightarrow> None | Some s' \<Rightarrow> play bs s')"
  by (induction as arbitrary: s) (auto split: option.splits)

lemma play_unpaused:
  assumes "\<not> paused (gate s)" "n \<le> length (program s)"
  shows "play (replicate n Producer) s =
           Some (s\<lparr>program := drop n (program s),
                   plog := plog s @ map (\<lambda>ev. Did ev False) (take n (program s))\<rparr>)"
  using assms
proof (induction n arbitrary: s)
  case 0
  then show ?case by simp
next
  case (Suc n)
  then obtain ev rest where p: "program s = ev # rest" by (cases "program s") auto
  define s1 where "s1 = s\<lparr>program := rest, plog := plog s @ [Did ev False]\<rparr>"
  have a: "act Producer s = Some s1"
    using p Suc.prems(1) by (simp add: s1_def WaitIfPaused_def)
  have "\<not> paused (gate s1)" "n \<le> length (program s1)"
    using Suc.prems p by (simp_all add: s1_def)
  from Suc.IH[OF this] a p show ?case by (simp add: s1_def)
qed

lemma Finish_while_paused:
  assumes "P = xs @ [Finish]"
  shows "play (replicate (length xs) Producer @ [Keyboard, Producer]) (begin_run P) =
           Some \<lparr>gate = \<lparr>paused = True\<rparr>, program = [],
                 plog = map (\<lambda>ev. Did ev False) xs @ [Toggled True, Did Finish True]\<rparr>"
proof -
  have "play (replicate (length xs) Producer) (begin_run P) =
          Some \<lparr>gate = \<lparr>paused = False\<rparr>, program = [Finish],
                plog = map (\<lambda>ev. Did ev False) xs\<rparr>"
    using play_unpaused[of "begin_run P" "length xs"] assms
    by (simp add: begin_run_def NewPauseController_def)
  then show ?thesis by (simp add: play_append Toggle_def)
qed

lemma main_events_v2_ends: "main_events_v2 L st es \<noteq> [] \<and> last (main_events_v2 L st es) = Finish"
  by (induction es arbitrary: st) simp_all

text \<open>
  The events of the producer and the log of the archive writer: the calls of \<open>CreateHeader\<close>
  and of \<open>writer.Write\<close> are the same, in the same order, in both descriptions.
\<close>

lemma archive_events_simps:
  "archive_events [] = []"
  "archive_events (Gate # evs) = archive_events evs"
  "archive_events (ReadChunk # evs) = archive_events evs"
  "archive_events (Finish # evs) = archive_events evs"
  "archive_events (Header # evs) = Header # archive_events evs"
  "archive_events (WriteChunk # evs) = WriteChunk # archive_events evs"
  "archive_events (xs @ ys) = archive_events xs @ archive_events ys"
  by (simp_all add: archive_events_def)

lemma copy_events_calls:
  "map kind (zcalls (snd (copy_v1 z rs))) = map kind (zcalls z) @ archive_events (copy_events z rs)"
proof (induction z rs rule: copy_v1.induct)
  case (1 z)
  then show ?case by (simp add: archive_events_simps)
next
  case (2 z bs rs rest)
  show ?case
  proof (cases "length bs > 0")
    case True
    obtain failed z' where w: "zip_Write z bs = (failed, z')" by (metis surj_pair)
    then have z': "map kind (zcalls z') = map kind (zcalls z) @ [WriteChunk]"
      by (auto simp: zip_Write_def)
    show ?thesis
    proof (cases "failed \<or> rs \<noteq> More")
      case stop: True
      with True w z' show ?thesis
        by (cases failed; cases rs) (simp_all add: archive_events_simps)
    next
      case False
      then have f: "failed = False" "rs = More" by auto
      have w': "(False, z') = (if 0 < length bs then zip_Write z bs else (False, z))"
        using True w f by simp
      from 2[OF w' refl f(2)] True w f z' show ?thesis
        by (simp add: archive_events_simps)
    qed
  next
    case False
    show ?thesis
    proof (cases rs)
      case More
      have w': "(False, z) = (if 0 < length bs then zip_Write z bs else (False, z))"
        using False by simp
      from 2[OF w' refl More] False More show ?thesis by (simp add: archive_events_simps)
    qed (use False in \<open>simp_all add: archive_events_simps\<close>)
  qed
qed

lemma CreateHeader_kind:
  "zip_CreateHeader st z name = (failed, z') \<Longrightarrow>
     map kind (zcalls z') = map kind (zcalls z) @ [Header]"
  by (auto simp: zip_CreateHeader_def)

lemma visit_events_v1_calls:
  "map kind (zcalls (snd (visit_v1 L basePath baseDir z e))) =
     map kind (zcalls z) @ archive_events (visit_events_v1 L basePath baseDir z e)"
proof (cases "walk_err e \<or> header_err e")
  case True
  then show ?thesis by (auto simp: visit_v1_def visit_events_v1_def archive_events_simps)
next
  case False
  show ?thesis
  proof (cases "Rel L baseDir (path e)")
    case (Inl err)
    with False show ?thesis by (simp add: visit_v1_def visit_events_v1_def archive_events_simps)
  next
    case (Inr rel)
    define name where "name = ToSlash L (if \<not> isDir e \<and> baseDir = Dir L basePath \<and> basePath = path e
                                then Base L (path e) else rel) @ (if isDir e then ''/'' else [])"
    obtain failed z1 where c: "zip_CreateHeader Entry z name = (failed, z1)" by (metis surj_pair)
    note k = CreateHeader_kind[OF c]
    have v: "visit_v1 L basePath baseDir z e =
               (if failed then (Some ZipError, z1)
                else if isDir e then (None, z1)
                else if open_err e then (Some OpenError, z1) else copy_v1 z1 (reads e))"
      using False Inr c by (cases failed) (auto simp: visit_v1_def Let_def name_def)
    have w: "visit_events_v1 L basePath baseDir z e =
               Gate # (if failed then [Header]
                       else Header # (if isDir e \<or> open_err e then [] else copy_events z1 (reads e)))"
      using False Inr c by (cases failed) (auto simp: visit_events_v1_def Let_def name_def)
    show ?thesis unfolding v w using k
      by (simp add: archive_events_simps copy_events_calls)
  qed
qed

lemma walk_events_v1_calls:
  "map kind (zcalls (snd (Walk (visit_v1 L basePath baseDir) z es))) =
     map kind (zcalls z) @ archive_events (walk_events_v1 L basePath baseDir z es)"
proof (induction es arbitrary: z)
  case Nil
  then show ?case by (simp add: archive_events_simps)
next
  case (Cons e es)
  obtain r z' where v: "visit_v1 L basePath baseDir z e = (r, z')" by (metis surj_pair)
  have k: "map kind (zcalls z') =
             map kind (zcalls z) @ archive_events (visit_events_v1 L basePath baseDir z e)"
    using visit_events_v1_calls[of L basePath baseDir z e] v by simp
  show ?case
  proof (cases r)
    case None
    with v k Cons[of z'] show ?thesis by (simp add: archive_events_simps)
  next
    case (Some err)
    with v k show ?thesis by (simp add: archive_events_simps)
  qed
qed

lemma main_events_v1_calls:
  "map kind (zcalls (snd (compress_v1 L z srcs))) =
     map kind (zcalls z) @ archive_events (main_events_v1 L z srcs)"
proof (induction srcs arbitrary: z)
  case Nil
  then show ?case by (simp add: archive_events_simps)
next
  case (Cons src srcs)
  show ?case
  proof (cases "stat src")
    case None
    then show ?thesis by (simp add: addFiles_v1_def archive_events_simps)
  next
    case (Some d)
    define baseDir where "baseDir = (if d then src_path src else Dir L (src_path src))"
    obtain r z' where a: "Walk (visit_v1 L (src_path src) baseDir) z (visits src) = (r, z')"
      by (metis surj_pair)
    have af: "addFiles_v1 L z src = (r, z')"
      using Some a by (simp add: addFiles_v1_def baseDir_def)
    have k: "map kind (zcalls z') =
               map kind (zcalls z) @
               archive_events (walk_events_v1 L (src_path src) baseDir z (visits src))"
      using walk_events_v1_calls[of L "src_path src" baseDir z "visits src"] a by simp
    show ?thesis
    proof (cases r)
      case None
      with Some af k Cons[of z'] show ?thesis
        by (simp add: archive_events_simps baseDir_def)
    next
      case (Some err)
      with \<open>stat src = Some d\<close> af k show ?thesis
        by (simp add: archive_events_simps baseDir_def)
    qed
  qed
qed

lemma copy_v2_calls_kind:
  "map kind (zcalls (zw (copy_v2 st p rs))) =
     map kind (zcalls (zw st)) @ archive_events (copy_events (zw st) rs)"
proof -
  have "zw (copy_v2 st p rs) = snd (copy_v1 (zw st) rs)"
    by (simp add: copy_v2_as_v1 split: prod.splits option.splits)
  then show ?thesis by (simp add: copy_events_calls)
qed

lemma volume_root_kind:
  "map kind (zcalls (zw (volume_root st d))) =
     map kind (zcalls (zw st)) @ (if d \<noteq> [] \<and> d \<notin> createdVolumes st then [Header] else [])"
  by (simp add: volume_root_def zip_CreateHeader_def)

lemma visit_events_v2_calls:
  "map kind (zcalls (zw (snd (visit_v2 L st e)))) =
     map kind (zcalls (zw st)) @ archive_events (visit_events_v2 L st e)"
proof (cases "walk_err e \<or> header_err e")
  case True
  then show ?thesis by (auto simp: visit_v2_def visit_events_v2_def archive_events_simps)
next
  case False
  show ?thesis
  proof (cases "Abs L (path e)")
    case (Inl err)
    with False show ?thesis by (simp add: visit_v2_def visit_events_v2_def archive_events_simps)
  next
    case (Inr absPath)
    define d where "d = TrimSuffix (VolumeName L absPath) '':''"
    define st1 where "st1 = volume_root st d"
    define zipPath where "zipPath = zipPath_of L absPath"
    define name where "name = ToSlash L zipPath @ (if isDir e then ''/'' else [])"
    define vol where "vol = (if d \<noteq> [] \<and> d \<notin> createdVolumes st then [Header] else [])"
    have k1: "map kind (zcalls (zw st1)) = map kind (zcalls (zw st)) @ vol"
      unfolding st1_def vol_def by (rule volume_root_kind)
    obtain failed z' where c: "zip_CreateHeader Entry (zw st1) name = (failed, z')"
      by (metis surj_pair)
    note k = CreateHeader_kind[OF c]
    have v: "zw (snd (visit_v2 L st e)) =
               (if zipPath = [] \<or> zipPath = ''.'' then zw st1
                else if failed \<or> isDir e \<or> open_err e then z'
                else zw (copy_v2 (st1\<lparr>zw := z'\<rparr>) (path e) (reads e)))"
      using False Inr c
      by (cases failed) (auto simp: visit_v2_def Let_def d_def st1_def zipPath_def name_def)
    have w: "visit_events_v2 L st e =
               Gate # vol @
               (if zipPath = [] \<or> zipPath = ''.'' then []
                else if failed then [Header]
                else Header # (if isDir e \<or> open_err e then [] else copy_events z' (reads e)))"
      using False Inr c
      by (cases failed)
        (auto simp: visit_events_v2_def Let_def d_def st1_def zipPath_def name_def vol_def)
    have av: "archive_events vol = vol"
      by (simp add: vol_def archive_events_simps)
    show ?thesis unfolding v w using k k1 av
      by (simp add: archive_events_simps copy_v2_calls_kind)
  qed
qed

lemma main_events_v2_calls:
  "map kind (zcalls (zw (snd (Walk (visit_v2 L) st es)))) =
     map kind (zcalls (zw st)) @ archive_events (main_events_v2 L st es)"
proof (induction es arbitrary: st)
  case Nil
  then show ?case by (simp add: archive_events_simps)
next
  case (Cons e es)
  obtain r st' where v: "visit_v2 L st e = (r, st')" by (metis surj_pair)
  have r: "r = None" using visit_v2_no_error[of L st e] v by simp
  have k: "map kind (zcalls (zw st')) =
             map kind (zcalls (zw st)) @ archive_events (visit_events_v2 L st e)"
    using visit_events_v2_calls[of L st e] v by simp
  from v r k Cons[of st'] show ?case by (simp add: archive_events_simps)
qed

text \<open>
  Claim C5, as the code has it. In both variants and under every timing of the key presses:
  \<^item> the calls of \<open>WaitIfPaused\<close> stand where \<open>gated\<close> says: every \<open>CreateHeader\<close> follows a
    \<open>WaitIfPaused\<close> with nothing between them but, in the variant with the volume roots, the
    \<open>CreateHeader\<close> of the volume root of the same callback; every \<open>file.Read\<close> comes right
    after a \<open>WaitIfPaused\<close> and every \<open>writer.Write\<close> right after its \<open>file.Read\<close>;
  \<^item> \<open>WaitIfPaused\<close> never returns while the flag is set: the producer that meets it with the
    flag set is blocked, and no other step of the producer is ever blocked;
  \<^item> so the steps the producer takes in a row while the flag is set are, the closing of the
    archive apart, a part of the \<open>CreateHeader\<close> calls of one callback or of one \<open>file.Read\<close>
    with its \<open>writer.Write\<close>: at most \<open>k\<close> headers, one chunk read and one chunk written;
  \<^item> \<open>Toggle\<close> changes the flag and nothing else: it takes no step of the producer, so it
    writes and flushes nothing;
  \<^item> no \<open>WaitIfPaused\<close> stands before the closing of the archive and the last flush: in every
    run that reaches them (every run of the variant with the volume roots does), a key press
    right before them lets them run with the flag set.
\<close>

theorem pause_gate:
  assumes "P = main_events_v1 L z srcs \<and> k = 1 \<or> P = main_events_v2 L' st es \<and> k = 2"
    and "play sched (begin_run P) = Some s"
  shows "gated k None P \<and>
         Did Gate True \<notin> set (plog s) \<and>
         (\<forall>rest. paused (gate s) \<and> program s = Gate # rest \<longrightarrow> act Producer s = None) \<and>
         (\<forall>ev rest. program s = ev # rest \<and> ev \<noteq> Gate \<longrightarrow>
            act Producer s = Some (s\<lparr>program := rest, plog := plog s @ [Did ev (paused (gate s))]\<rparr>)) \<and>
         (\<forall>before evs others. plog s = before @ map (\<lambda>ev. Did ev True) evs @ others \<longrightarrow>
            Gate \<notin> set evs \<and>
            (sublist (work evs) (replicate k Header) \<or> sublist (work evs) [ReadChunk, WriteChunk]) \<and>
            length (filter ((=) Header) evs) \<le> k \<and>
            length (filter ((=) ReadChunk) evs) \<le> 1 \<and>
            length (filter ((=) WriteChunk) evs) \<le> 1) \<and>
         (\<forall>s'. act Keyboard s = Some s' \<longrightarrow>
            paused (gate s') = (\<not> paused (gate s)) \<and> program s' = program s \<and>
            done_events (plog s') = done_events (plog s)) \<and>
         (\<forall>xs. P = xs @ [Finish] \<longrightarrow>
            play (replicate (length xs) Producer @ [Keyboard, Producer]) (begin_run P) =
              Some \<lparr>gate = \<lparr>paused = True\<rparr>, program = [],
                    plog = map (\<lambda>ev. Did ev False) xs @ [Toggled True, Did Finish True]\<rparr>) \<and>
         (k = 2 \<longrightarrow> P = butlast P @ [Finish])"
proof -
  have c: "gated k None P"
    using assms(1) gated_main_events_v1[of 0] gated_main_events_v2[of 0]
    by (auto simp: numeral_2_eq_2)
  from play_inv[OF assms(2)]
  have i: "done_events (plog s) @ program s = P" and g: "Did Gate True \<notin> set (plog s)"
    by (simp_all add: begin_run_def)
  have w: "\<forall>rest. paused (gate s) \<and> program s = Gate # rest \<longrightarrow> act Producer s = None"
    by (simp add: WaitIfPaused_def)
  have n: "\<forall>ev rest. program s = ev # rest \<and> ev \<noteq> Gate \<longrightarrow>
            act Producer s = Some (s\<lparr>program := rest, plog := plog s @ [Did ev (paused (gate s))]\<rparr>)"
    by simp
  have b: "\<forall>before evs others. plog s = before @ map (\<lambda>ev. Did ev True) evs @ others \<longrightarrow>
            Gate \<notin> set evs \<and>
            (sublist (work evs) (replicate k Header) \<or> sublist (work evs) [ReadChunk, WriteChunk]) \<and>
            length (filter ((=) Header) evs) \<le> k \<and>
            length (filter ((=) ReadChunk) evs) \<le> 1 \<and>
            length (filter ((=) WriteChunk) evs) \<le> 1"
  proof (intro allI impI)
    fix before evs others
    assume l: "plog s = before @ map (\<lambda>ev. Did ev True) evs @ others"
    from g l have ng: "Gate \<notin> set evs" by auto
    from i l have "P = done_events before @ evs @ (done_events others @ program s)"
      by (simp add: done_events_append done_events_Did)
    with c have "gated k None (done_events before @ evs @ (done_events others @ program s))"
      by simp
    from paused_stretch[OF this ng]
    have s: "sublist (work evs) (replicate k Header) \<or> sublist (work evs) [ReadChunk, WriteChunk]" .
    from ng s paused_counts[OF s]
    show "Gate \<notin> set evs \<and>
            (sublist (work evs) (replicate k Header) \<or> sublist (work evs) [ReadChunk, WriteChunk]) \<and>
            length (filter ((=) Header) evs) \<le> k \<and>
            length (filter ((=) ReadChunk) evs) \<le> 1 \<and>
            length (filter ((=) WriteChunk) evs) \<le> 1" by blast
  qed
  have t: "\<forall>s'. act Keyboard s = Some s' \<longrightarrow>
            paused (gate s') = (\<not> paused (gate s)) \<and> program s' = program s \<and>
            done_events (plog s') = done_events (plog s)"
    by (auto simp: done_events_append Toggle_def)
  have f: "\<forall>xs. P = xs @ [Finish] \<longrightarrow>
            play (replicate (length xs) Producer @ [Keyboard, Producer]) (begin_run P) =
              Some \<lparr>gate = \<lparr>paused = True\<rparr>, program = [],
                    plog = map (\<lambda>ev. Did ev False) xs @ [Toggled True, Did Finish True]\<rparr>"
    using Finish_while_paused by blast
  have e: "k = 2 \<longrightarrow> P = butlast P @ [Finish]"
  proof
    assume "k = 2"
    with assms(1) have "P = main_events_v2 L' st es" by auto
    with main_events_v2_ends[of L' st es] show "P = butlast P @ [Finish]"
      by (metis append_butlast_last_id)
  qed
  from c g w n b t f e show ?thesis by blast
qed

text \<open>
  The claim that nothing is read or written while the flag is set fails when the key is
  pressed between \<open>WaitIfPaused\<close> and \<open>file.Read\<close>: the chunk is read and written with the flag
  set, and only then is the producer blocked. It fails also at the end of a run: after the
  last chunk no \<open>WaitIfPaused\<close> stands before \<open>zipWriter.Close()\<close> and \<open>bufferedFile.Flush()\<close>,
  which run with the flag set.
\<close>

theorem pause_gate_counterexample:
  "play [Producer, Producer, Producer, Keyboard, Producer, Producer]
     (begin_run (main_events_v2 (clean_paths CHR ''/'' False) (new_run [])
        [a_file ''/a.txt'' [([1, 2], More), ([3], AtEOF)]])) =
   Some \<lparr>gate = \<lparr>paused = True\<rparr>, program = [Gate, ReadChunk, WriteChunk, Finish],
         plog = [Did Gate False, Did Header False, Did Gate False, Toggled True,
                 Did ReadChunk True, Did WriteChunk True]\<rparr> \<and>
   play [Producer, Producer, Producer, Producer, Producer, Keyboard, Producer]
     (begin_run (main_events_v2 (clean_paths CHR ''/'' False) (new_run [])
        [a_file ''/a.txt'' [([1, 2], AtEOF)]])) =
   Some \<lparr>gate = \<lparr>paused = True\<rparr>, program = [],
         plog = [Did Gate False, Did Header False, Did Gate False, Did ReadChunk False,
                 Did WriteChunk False, Toggled True, Did Finish True]\<rparr>"
  by code_simp

theorem pause_gate_witness:
  "play [Producer, Producer, Producer, Keyboard, Producer, Producer]
     (begin_run (main_events_v2 (clean_paths CHR ''/'' False) (new_run [])
        [a_file ''/a.txt'' [([1, 2], More), ([3], AtEOF)]])) =
   Some \<lparr>gate = \<lparr>paused = True\<rparr>, program = [Gate, ReadChunk, WriteChunk, Finish],
         plog = [Did Gate False, Did Header False, Did Gate False, Toggled True,
                 Did ReadChunk True, Did WriteChunk True]\<rparr> \<and>
   act Producer \<lparr>gate = \<lparr>paused = True\<rparr>, program = [Gate, ReadChunk, WriteChunk, Finish],
         plog = [Did Gate False, Did Header False, Did Gate False, Toggled True,
                 Did ReadChunk True, Did WriteChunk True]\<rparr> = None \<and>
   sublist (work [ReadChunk, WriteChunk]) [ReadChunk, WriteChunk] \<and>
   length (filter ((=) ReadChunk) [ReadChunk, WriteChunk]) \<le> 1 \<and>
   gated 2 None [Gate, Header, Gate, ReadChunk, WriteChunk, Gate, ReadChunk, WriteChunk, Finish] \<and>
   play (replicate 8 Producer @ [Keyboard, Producer])
     (begin_run (main_events_v2 (clean_paths CHR ''/'' False) (new_run [])
        [a_file ''/a.txt'' [([1, 2], More), ([3], AtEOF)]])) =
   Some \<lparr>gate = \<lparr>paused = True\<rparr>, program = [],
         plog = map (\<lambda>ev. Did ev False)
                  [Gate, Header, Gate, ReadChunk, WriteChunk, Gate, ReadChunk, WriteChunk] @
                [Toggled True, Did Finish True]\<rparr>"
proof -
  define P where "P = main_events_v2 (clean_paths CHR ''/'' False) (new_run [])
        [a_file ''/a.txt'' [([1, 2], More), ([3], AtEOF)]]"
  define S where "S = \<lparr>gate = \<lparr>paused = True\<rparr>, program = [Gate, ReadChunk, WriteChunk, Finish],
         plog = [Did Gate False, Did Header False, Did Gate False, Toggled True,
                 Did ReadChunk True, Did WriteChunk True]\<rparr>"
  have p: "P = main_events_v1 (clean_paths CHR ''/'' False) (new_zip []) [] \<and> (2::nat) = 1 \<or>
           P = main_events_v2 (clean_paths CHR ''/'' False) (new_run [])
                 [a_file ''/a.txt'' [([1, 2], More), ([3], AtEOF)]] \<and> (2::nat) = 2"
    by (simp add: P_def)
  have v: "P = [Gate, Header, Gate, ReadChunk, WriteChunk, Gate, ReadChunk, WriteChunk] @ [Finish]"
    unfolding P_def by code_simp
  have e: "play [Producer, Producer, Producer, Keyboard, Producer, Producer] (begin_run P) = Some S"
    unfolding P_def S_def by code_simp
  have l: "plog S = [Did Gate False, Did Header False, Did Gate False, Toggled True]
             @ map (\<lambda>ev. Did ev True) [ReadChunk, WriteChunk] @ []"
    by (simp add: S_def)
  have b: "paused (gate S) \<and> program S = Gate # [ReadChunk, WriteChunk, Finish]"
    by (simp add: S_def)
  have w: "work [ReadChunk, WriteChunk] = [ReadChunk, WriteChunk]" by (simp add: work_def)
  note inst = pause_gate[OF p e]
  from inst l have "sublist (work [ReadChunk, WriteChunk]) (replicate 2 Header) \<or>
      sublist (work [ReadChunk, WriteChunk]) [ReadChunk, WriteChunk]"
    by blast
  then have 0: "sublist (work [ReadChunk, WriteChunk]) [ReadChunk, WriteChunk]"
    by (simp add: w)
  from inst l have 1: "length (filter ((=) ReadChunk) [ReadChunk, WriteChunk]) \<le> 1"
    by blast
  from inst b have 2: "act Producer S = None" by blast
  from inst have "gated 2 None P" by blast
  then have 3: "gated 2 None
      [Gate, Header, Gate, ReadChunk, WriteChunk, Gate, ReadChunk, WriteChunk, Finish]"
    unfolding v by (simp only: append_Cons append_Nil)
  from inst v have 4: "play (replicate
        (length [Gate, Header, Gate, ReadChunk, WriteChunk, Gate, ReadChunk, WriteChunk]) Producer @
        [Keyboard, Producer]) (begin_run P) =
      Some \<lparr>gate = \<lparr>paused = True\<rparr>, program = [],
         plog = map (\<lambda>ev. Did ev False)
                  [Gate, Header, Gate, ReadChunk, WriteChunk, Gate, ReadChunk, WriteChunk] @
                [Toggled True, Did Finish True]\<rparr>"
    by blast
  have 5: "length [Gate, Header, Gate, ReadChunk, WriteChunk, Gate, ReadChunk, WriteChunk] = 8"
    by simp
  from e 0 1 2 3 4[unfolded 5] show ?thesis unfolding P_def S_def by blast
qed

end
